theory Spec2Isabelle
  imports Main
begin

section \<open>The task pool of renderer-require.js\<close>

text \<open>
  The pool of \<^verbatim>\<open>RendererTaskpoolItem\<close> is single-threaded: every callback (a proxied call,
  the settling of a spawn promise, the reply of a window, a timer) runs to its end before
  the next one starts. The model is therefore a state record and one function per callback;
  \<open>step\<close> dispatches on the event that the environment delivers and \<open>run\<close> folds it over a
  list of events. An event that cannot occur in the state at hand (a reply for a request
  that is not outstanding, a timer that is not due) leaves the state alone.
\<close>

subsection \<open>Data\<close>

text \<open>A worker object is identified by the \<^verbatim>\<open>BrowserWindow\<close> behind it.\<close>

type_synonym wnd = nat

datatype jsval = JUndefined | JBool bool | JNum int | JStr string

text \<open>
  JavaScript errors. The pool never inspects an error: the constructors only name where the
  environment raised it (module load in \<^verbatim>\<open>rendererRequireDirect\<close>, the remote method, a
  broken transport, the timeout of the remote call), after the error classes of the
  specification.
\<close>

datatype error = SpawnError string | InvocationError string | FatalWorkerError string | TimeoutError

text \<open>The object pushed onto \<^verbatim>\<open>invocationQueue\<close>; \<open>retval\<close> is the index of its \<^verbatim>\<open>AsyncSubject\<close>.\<close>

record invocation =
  chain :: "string list"
  args :: "jsval list"
  retval :: nat

text \<open>The promise of \<^verbatim>\<open>retval.toPromise()\<close>.\<close>

datatype future = Pending | Resolved jsval | Rejected error

text \<open>What the observable of a remote call delivers: one value and completion, or an error.\<close>

datatype outcome = Success jsval | Failure error

text \<open>
  A subscribed inner observable of the pipeline: waiting for the promise of
  \<^verbatim>\<open>rendererRequireDirect\<close>, or waiting for the reply of a window; the latter carries the time
  the request was sent and the timeout it was sent with.
\<close>

datatype slot = Spawning invocation wnd | Invoking invocation wnd nat nat

record pool =
  modulePath :: string
  maxConcurrency :: int
  freeWindowList :: "wnd list"
  q :: "invocation list"
  activeCount :: int
  isStopped :: bool
  inflight :: "slot list"
  retvals :: "future list"
  timer :: "nat option"
  now :: nat
  spawned :: nat
  started :: "nat list"
  sent :: "(wnd \<times> invocation) list"
  disposed :: "wnd list"
  completions :: nat

text \<open>
  \<open>freeWindowList\<close> is the JavaScript array (\<^verbatim>\<open>push\<close> appends, \<^verbatim>\<open>pop\<close> takes the last element);
  \<open>q\<close> and \<open>activeCount\<close> are the buffer and the counter of Rx's \<^verbatim>\<open>merge(maxConcurrent)\<close>;
  \<open>isStopped\<close> says that the pipeline's observer has received \<^verbatim>\<open>onError\<close>, after which Rx
  disposes the subscription, so that \<^verbatim>\<open>invocationQueue\<close> has no observer left.
  \<open>inflight\<close> holds the inner observables that have been subscribed and have not ended.
  When the pipeline is disposed they stay in the list: a request that has been sent is
  still connected to its future by \<^verbatim>\<open>ret.multicast(retval).connect()\<close>, and a spawn goes on,
  but what they deliver no longer reaches the pipeline. \<open>retvals\<close> are the futures handed
  to the callers, in the order of the calls. \<open>timer\<close> is the due time of the pending timer
  of \<^verbatim>\<open>guaranteedThrottle\<close>; \<open>now\<close> is the clock in milliseconds; \<open>spawned\<close> counts the
  windows created so far, and a new window gets this count as its identity.
  \<open>started\<close>, \<open>sent\<close>, \<open>disposed\<close> and \<open>completions\<close> record what the pool did: the
  invocations whose inner observable was subscribed (by the index of their future), the
  requests sent to windows, the windows closed, the number of
  \<^verbatim>\<open>completionQueue.onNext(true)\<close>.
\<close>

text \<open>
  What the environment does: a call on the proxy with the captured chain and the arguments;
  the promise of the spawn started for an invocation settles (\<open>None\<close>: the worker object is
  there, \<open>Some e\<close>: \<^verbatim>\<open>rendererRequireDirect\<close> threw \<open>e\<close>); the observable of the remote call of
  an invocation ends; the timeout of that call runs out; the timer of the idle subscriber
  runs out; time passes. Invocations are named by the index of their future.
\<close>

datatype event =
    Call "string list" "jsval list"
  | SpawnDone nat "error option"
  | Reply nat outcome
  | Timeout nat
  | ThrottleFire
  | Advance nat

subsection \<open>Operations\<close>

text \<open>
  \<^verbatim>\<open>getOrCreateWindow\<close>: pop the free list; when nothing was popped, call
  \<^verbatim>\<open>rendererRequireDirect(modulePath)\<close>, which creates the window at once and settles later.
  The result says which of the two observables is returned.
\<close>

datatype acquired = Popped wnd | Created wnd

definition getOrCreateWindow :: "pool \<Rightarrow> acquired \<times> pool" where
  "getOrCreateWindow s =
     (if freeWindowList s \<noteq> []
      then (Popped (last (freeWindowList s)), s\<lparr>freeWindowList := butlast (freeWindowList s)\<rparr>)
      else (Created (spawned s), s\<lparr>spawned := Suc (spawned s)\<rparr>))"

text \<open>
  Modelled from the spec: \<^verbatim>\<open>executeJavaScriptMethodObservable(bw, timeout, chain, ...args)\<close> of
  execute-js-func.js, which is not among the sources. It sends the request to the window and
  returns an observable that delivers the reply, or fails when the remote method fails or
  when \<open>timeout\<close> milliseconds pass without a reply.
\<close>

definition executeJavaScriptMethodObservable :: "wnd \<Rightarrow> nat \<Rightarrow> invocation \<Rightarrow> pool \<Rightarrow> pool" where
  "executeJavaScriptMethodObservable bw timeout job s =
     s\<lparr>sent := sent s @ [(bw, job)],
       inflight := inflight s @ [Invoking job bw (now s) timeout]\<rparr>"

text \<open>The method of the worker object that \<^verbatim>\<open>rendererRequireDirect\<close> returns.\<close>

definition wnd_executeJavaScriptMethodObservable :: "wnd \<Rightarrow> invocation \<Rightarrow> pool \<Rightarrow> pool" where
  "wnd_executeJavaScriptMethodObservable bw job s =
     executeJavaScriptMethodObservable bw (240 * 1000) job s"

text \<open>
  The subscription of one inner observable
  \<^verbatim>\<open>Observable.defer(() => getOrCreateWindow().flatMap(...))\<close>: a popped window is used at
  once (\<^verbatim>\<open>Observable.return\<close> is synchronous), a created one when its promise resolves.
\<close>

definition handleSubscribe :: "invocation \<Rightarrow> pool \<Rightarrow> pool" where
  "handleSubscribe job s =
     (case getOrCreateWindow (s\<lparr>started := started s @ [retval job]\<rparr>) of
        (Popped w, s') \<Rightarrow> wnd_executeJavaScriptMethodObservable w job s'
      | (Created w, s') \<Rightarrow> s'\<lparr>inflight := inflight s' @ [Spawning job w]\<rparr>)"

text \<open>\<^verbatim>\<open>MergeObserver.next\<close> of Rx: subscribe while fewer than \<open>maxConcurrency\<close> are active, else buffer.\<close>

definition merge_next :: "invocation \<Rightarrow> pool \<Rightarrow> pool" where
  "merge_next job s =
     (if activeCount s < maxConcurrency s
      then handleSubscribe job (s\<lparr>activeCount := activeCount s + 1\<rparr>)
      else s\<lparr>q := q s @ [job]\<rparr>)"

text \<open>\<^verbatim>\<open>InnerObserver.completed\<close> of Rx: hand the slot to the oldest buffered observable, or give it up.\<close>

definition inner_completed :: "pool \<Rightarrow> pool" where
  "inner_completed s =
     (case q s of
        job # rest \<Rightarrow> handleSubscribe job (s\<lparr>q := rest\<rparr>)
      | [] \<Rightarrow> s\<lparr>activeCount := activeCount s - 1\<rparr>)"

text \<open>
  The callback given to \<^verbatim>\<open>RecursiveProxyHandler.create\<close>. \<^verbatim>\<open>methodChain.splice(1)\<close> returns the
  elements from index 1 on. A \<^verbatim>\<open>Subject\<close> without observers drops what it is given.
\<close>

definition moduleProxy :: "string list \<Rightarrow> jsval list \<Rightarrow> pool \<Rightarrow> pool" where
  "moduleProxy methodChain as s =
     (let chain' = drop 1 methodChain;
          job = \<lparr>chain = [''requiredModule''] @ chain', args = as, retval = length (retvals s)\<rparr>;
          s' = s\<lparr>retvals := retvals s @ [Pending]\<rparr>
      in if isStopped s' then s' else merge_next job s')"

text \<open>
  The subscriber of the pipeline. Every worker object has a \<^verbatim>\<open>dispose\<close>, so it never throws.
  \<^verbatim>\<open>completionQueue.onNext(true)\<close> restarts the timer of \<^verbatim>\<open>guaranteedThrottle(5*1000)\<close>.
\<close>

definition subscriber :: "wnd \<Rightarrow> pool \<Rightarrow> pool" where
  "subscriber w s =
     s\<lparr>freeWindowList := freeWindowList s @ [w],
       completions := Suc (completions s),
       timer := Some (now s + 5 * 1000)\<rparr>"

text \<open>An \<^verbatim>\<open>AsyncSubject\<close> takes its outcome once.\<close>

definition settle :: "nat \<Rightarrow> outcome \<Rightarrow> future list \<Rightarrow> future list" where
  "settle i oc fs =
     (if i < length fs \<and> fs ! i = Pending
      then fs[i := (case oc of Success v \<Rightarrow> Resolved v | Failure e \<Rightarrow> Rejected e)]
      else fs)"

fun is_invoking :: "nat \<Rightarrow> slot \<Rightarrow> bool" where
  "is_invoking i (Invoking job w t d) = (retval job = i)"
| "is_invoking i (Spawning job w) = False"

fun is_spawning :: "nat \<Rightarrow> slot \<Rightarrow> bool" where
  "is_spawning i (Spawning job w) = (retval job = i)"
| "is_spawning i (Invoking job w t d) = False"

text \<open>
  The observable of a remote call ends. \<^verbatim>\<open>ret.multicast(retval).connect()\<close> settles the
  future in any case; \<^verbatim>\<open>ret.map(() => wnd).catch(Observable.return(wnd))\<close> gives the window to
  the subscriber and completes, unless the pipeline has been disposed.
\<close>

definition reply :: "nat \<Rightarrow> outcome \<Rightarrow> pool \<Rightarrow> pool" where
  "reply i oc s =
     (case List.find (is_invoking i) (inflight s) of
        Some (Invoking job w t d) \<Rightarrow>
          (let s' = s\<lparr>inflight := remove1 (Invoking job w t d) (inflight s),
                      retvals := settle i oc (retvals s)\<rparr>
           in if isStopped s then s' else inner_completed (subscriber w s'))
      | _ \<Rightarrow> s)"

text \<open>
  The promise of \<^verbatim>\<open>rendererRequireDirect\<close> settles. A rejection travels down the pipeline as
  \<^verbatim>\<open>onError\<close>: the subscriber has no error handler, and Rx disposes the subscription.
\<close>

definition spawn_done :: "nat \<Rightarrow> error option \<Rightarrow> pool \<Rightarrow> pool" where
  "spawn_done i r s =
     (case List.find (is_spawning i) (inflight s) of
        Some (Spawning job w) \<Rightarrow>
          (let s' = s\<lparr>inflight := remove1 (Spawning job w) (inflight s)\<rparr>
           in if isStopped s then s'
              else (case r of
                      None \<Rightarrow> wnd_executeJavaScriptMethodObservable w job s'
                    | Some e \<Rightarrow> s'\<lparr>isStopped := True\<rparr>))
      | _ \<Rightarrow> s)"

text \<open>The loop of the idle subscriber: pop and dispose until the list is empty.\<close>

function burn :: "pool \<Rightarrow> pool" where
  "burn s =
     (if length (freeWindowList s) > 0
      then burn (s\<lparr>freeWindowList := butlast (freeWindowList s),
                   disposed := disposed s @ [last (freeWindowList s)]\<rparr>)
      else s)"
  by pat_completeness auto
termination
  by (relation "measure (\<lambda>s. length (freeWindowList s))") auto

declare burn.simps [simp del]

text \<open>
  Modelled from the spec: \<^verbatim>\<open>guaranteedThrottle\<close> of custom-operators.js, which is not among the
  sources. Every completion restarts its timer (see \<open>subscriber\<close>); when the timer runs out
  undisturbed, the event is passed on to the idle subscriber.
\<close>

definition throttle_fire :: "pool \<Rightarrow> pool" where
  "throttle_fire s =
     (case timer s of
        Some d \<Rightarrow> if d \<le> now s then burn (s\<lparr>timer := None\<rparr>) else s
      | None \<Rightarrow> s)"

text \<open>
  Modelled from the spec: the timeout inside \<^verbatim>\<open>executeJavaScriptMethodObservable\<close>
  (execute-js-func.js, not among the sources). The specification describes the remote call
  only as a future that fails when the remote execution fails; what the timeout argument
  does is taken from its name and from Rx's \<^verbatim>\<open>timeout\<close> operator: when the time given at
  the call has passed without a reply, the observable of the call fails with a timeout
  error.
\<close>

definition timeout_fire :: "nat \<Rightarrow> pool \<Rightarrow> pool" where
  "timeout_fire i s =
     (case List.find (is_invoking i) (inflight s) of
        Some (Invoking job w t d) \<Rightarrow> if t + d \<le> now s then reply i (Failure TimeoutError) s else s
      | _ \<Rightarrow> s)"

fun due :: "slot \<Rightarrow> nat option" where
  "due (Invoking job w t d) = Some (t + d)"
| "due (Spawning job w) = None"

text \<open>
  Time passes, but never beyond a timer that has not fired yet: a timer that is due fires
  before the clock moves on.
\<close>

definition can_advance :: "nat \<Rightarrow> pool \<Rightarrow> bool" where
  "can_advance n s =
     (list_all (\<lambda>sl. case due sl of Some d \<Rightarrow> now s + n \<le> d | None \<Rightarrow> True) (inflight s)
      \<and> (case timer s of Some d \<Rightarrow> now s + n \<le> d | None \<Rightarrow> True))"

definition advance :: "nat \<Rightarrow> pool \<Rightarrow> pool" where
  "advance n s = (if can_advance n s then s\<lparr>now := now s + n\<rparr> else s)"

fun step :: "event \<Rightarrow> pool \<Rightarrow> pool" where
  "step (Call methodChain as) s = moduleProxy methodChain as s"
| "step (SpawnDone i r) s = spawn_done i r s"
| "step (Reply i oc) s = reply i oc s"
| "step (Timeout i) s = timeout_fire i s"
| "step ThrottleFire s = throttle_fire s"
| "step (Advance n) s = advance n s"

definition run :: "pool \<Rightarrow> event list \<Rightarrow> pool" where
  "run s evs = fold step evs s"

text \<open>The constructor of \<^verbatim>\<open>RendererTaskpoolItem\<close>.\<close>

definition RendererTaskpoolItem :: "string \<Rightarrow> int \<Rightarrow> pool" where
  "RendererTaskpoolItem path maxC =
     \<lparr>modulePath = path, maxConcurrency = maxC, freeWindowList = [], q = [],
      activeCount = 0, isStopped = False, inflight = [], retvals = [], timer = None,
      now = 0, spawned = 0, started = [], sent = [], disposed = [], completions = 0\<rparr>"

text \<open>
  \<^verbatim>\<open>requireTaskPool(modulePath, maxConcurrency=4)\<close>: the default applies to an omitted
  argument. The number is not checked; the model takes it to be an integer.
\<close>

definition requireTaskPool :: "string \<Rightarrow> int option \<Rightarrow> pool" where
  "requireTaskPool path maxC =
     RendererTaskpoolItem path (case maxC of None \<Rightarrow> 4 | Some m \<Rightarrow> m)"

subsection \<open>Invariants\<close>

text \<open>
  The counter of the merge operator against the subscribed inner observables: they agree
  while the pipeline is alive, the counter stays within \<open>maxConcurrency\<close> (or at 0 when that
  is not positive), and nothing is buffered while a slot is free.
\<close>

definition slots_ok :: "pool \<Rightarrow> bool" where
  "slots_ok s \<longleftrightarrow>
     int (length (inflight s)) \<le> activeCount s
     \<and> (isStopped s \<or> activeCount s = int (length (inflight s)))
     \<and> (activeCount s \<le> maxConcurrency s \<or> activeCount s = 0)
     \<and> (q s = [] \<or> maxConcurrency s \<le> activeCount s)"

text \<open>
  Futures are numbered in the order of the calls, and the dispatched invocations followed by
  the buffered ones are the numbers from 0 on, in order.
\<close>

definition fifo_ok :: "pool \<Rightarrow> bool" where
  "fifo_ok s \<longleftrightarrow>
     (\<exists>n. started s @ map retval (q s) = [0..<n]
          \<and> n \<le> length (retvals s) \<and> (isStopped s \<or> n = length (retvals s)))"

text \<open>The proxied calls among the events, in order.\<close>

fun calls :: "event list \<Rightarrow> (string list \<times> jsval list) list" where
  "calls [] = []"
| "calls (Call methodChain as # evs) = (methodChain, as) # calls evs"
| "calls (e # evs) = calls evs"

text \<open>The invocations the pool holds or has sent, and what the proxy callback makes of a call.\<close>

fun slot_job :: "slot \<Rightarrow> invocation" where
  "slot_job (Spawning job w) = job"
| "slot_job (Invoking job w t d) = job"

definition jobs :: "pool \<Rightarrow> invocation set" where
  "jobs s = set (q s) \<union> slot_job ` set (inflight s) \<union> snd ` set (sent s)"

definition rewritten :: "(string list \<times> jsval list) list \<Rightarrow> invocation \<Rightarrow> bool" where
  "rewritten cs job \<longleftrightarrow>
     retval job < length cs
     \<and> chain job = ''requiredModule'' # tl (fst (cs ! retval job))
     \<and> args job = snd (cs ! retval job)"

definition chain_ok :: "(string list \<times> jsval list) list \<Rightarrow> pool \<Rightarrow> bool" where
  "chain_ok cs s \<longleftrightarrow> length (retvals s) = length cs \<and> (\<forall>job \<in> jobs s. rewritten cs job)"

text \<open>
  The slots belong to different futures, each of them dispatched and still pending; the
  buffered invocations are pending too.
\<close>

definition slot_id :: "slot \<Rightarrow> nat" where
  "slot_id sl = retval (slot_job sl)"

definition pending_ok :: "pool \<Rightarrow> bool" where
  "pending_ok s \<longleftrightarrow>
     distinct (map slot_id (inflight s))
     \<and> (\<forall>sl \<in> set (inflight s).
           slot_id sl \<in> set (started s) \<and> slot_id sl < length (retvals s)
           \<and> retvals s ! slot_id sl = Pending)
     \<and> (\<forall>job \<in> set (q s). retval job < length (retvals s) \<and> retvals s ! retval job = Pending)"

text \<open>
  A request in flight was sent with the timeout 240000, not in the future, and its timeout
  has not passed unnoticed. A request that was sent and whose future is pending is in flight.
\<close>

fun slot_timely :: "nat \<Rightarrow> slot \<Rightarrow> bool" where
  "slot_timely n (Invoking job w t d) = (d = 240 * 1000 \<and> t \<le> n \<and> n \<le> t + d)"
| "slot_timely n (Spawning job w) = True"

definition timers_ok :: "pool \<Rightarrow> bool" where
  "timers_ok s \<longleftrightarrow> list_all (slot_timely (now s)) (inflight s)"

definition sent_ok :: "pool \<Rightarrow> bool" where
  "sent_ok s \<longleftrightarrow>
     (\<forall>(w, job) \<in> set (sent s).
        retval job < length (retvals s)
        \<and> (retvals s ! retval job = Pending \<longrightarrow> (\<exists>t d. Invoking job w t d \<in> set (inflight s))))"

definition pool_ok :: "pool \<Rightarrow> bool" where
  "pool_ok s \<longleftrightarrow> slots_ok s \<and> fifo_ok s \<and> pending_ok s \<and> timers_ok s \<and> sent_ok s"

text \<open>A pipeline that has been disposed and has nothing in flight.\<close>

definition dead :: "pool \<Rightarrow> bool" where
  "dead s \<longleftrightarrow> isStopped s \<and> inflight s = []"

text \<open>A pool whose \<open>maxConcurrency\<close> is not positive and that has dispatched nothing.\<close>

definition unused :: "pool \<Rightarrow> bool" where
  "unused s \<longleftrightarrow>
     maxConcurrency s \<le> 0 \<and> activeCount s = 0 \<and> inflight s = [] \<and> started s = []
     \<and> sent s = [] \<and> \<not> isStopped s"

text \<open>The timer of the idle subscriber is due not before now and within 5000 milliseconds.\<close>

definition reap_timer_ok :: "pool \<Rightarrow> bool" where
  "reap_timer_ok s \<longleftrightarrow>
     (case timer s of None \<Rightarrow> True | Some d \<Rightarrow> now s \<le> d \<and> d \<le> now s + 5 * 1000)"

subsection \<open>Example runs\<close>

text \<open>
  Two calls on a default pool, both windows created and both requests sent; then the first
  request answered, which frees window 0 while window 1 is busy; then 5000 quiet
  milliseconds.
\<close>

definition two_calls :: "event list" where
  "two_calls =
     [Call [''__removeme__'', ''f''] [JNum 1], Call [''__removeme__'', ''g''] [JNum 2],
      SpawnDone 0 None, SpawnDone 1 None]"

definition pool_busy :: pool where
  "pool_busy = run (requireTaskPool ''mod'' None) two_calls"

definition pool_one_free :: pool where
  "pool_one_free = step (Reply 0 (Success (JNum 1))) pool_busy"

definition pool_quiet :: pool where
  "pool_quiet = step (Advance 5000) pool_one_free"

section \<open>Properties\<close>

subsection \<open>Basic facts\<close>

lemmas invoke_defs =
  wnd_executeJavaScriptMethodObservable_def executeJavaScriptMethodObservable_def

lemmas eval_defs =
  requireTaskPool_def RendererTaskpoolItem_def moduleProxy_def merge_next_def
  handleSubscribe_def getOrCreateWindow_def spawn_done_def reply_def invoke_defs
  inner_completed_def subscriber_def settle_def timeout_fire_def throttle_fire_def
  advance_def can_advance_def burn.simps Let_def

lemmas example_defs = two_calls_def pool_busy_def pool_one_free_def pool_quiet_def

lemma run_Nil [simp]: "run s [] = s"
  by (simp add: run_def)

lemma run_Cons [simp]: "run s (e # evs) = run (step e s) evs"
  by (simp add: run_def)

lemma run_append: "run s (evs @ evs') = run (run s evs) evs'"
  by (simp add: run_def)

lemma find_in_set: "List.find P xs = Some x \<Longrightarrow> x \<in> set xs \<and> P x"
  by (auto simp: find_Some_iff)

lemma length_remove1_mem:
  "x \<in> set xs \<Longrightarrow> int (length (remove1 x xs)) = int (length xs) - 1"
proof -
  assume mem: "x \<in> set xs"
  then have "0 < length xs" by (cases xs) auto
  then have "int (length xs - 1) = int (length xs) - 1" by arith
  with mem show ?thesis by (simp add: length_remove1)
qed


lemma handleSubscribe_frame [simp]:
  "activeCount (handleSubscribe job s) = activeCount s"
  "isStopped (handleSubscribe job s) = isStopped s"
  "maxConcurrency (handleSubscribe job s) = maxConcurrency s"
  "q (handleSubscribe job s) = q s"
  "retvals (handleSubscribe job s) = retvals s"
  "timer (handleSubscribe job s) = timer s"
  "now (handleSubscribe job s) = now s"
  "disposed (handleSubscribe job s) = disposed s"
  "completions (handleSubscribe job s) = completions s"
  "started (handleSubscribe job s) = started s @ [retval job]"
  by (simp_all add: handleSubscribe_def getOrCreateWindow_def invoke_defs)

lemma length_inflight_handleSubscribe [simp]:
  "length (inflight (handleSubscribe job s)) = Suc (length (inflight s))"
  by (simp add: handleSubscribe_def getOrCreateWindow_def invoke_defs)

text \<open>The loop \<open>burn\<close> touches the free list and the record of closed windows only.\<close>

lemma burn_frame [simp]:
  "inflight (burn s) = inflight s \<and> activeCount (burn s) = activeCount s
   \<and> isStopped (burn s) = isStopped s \<and> maxConcurrency (burn s) = maxConcurrency s
   \<and> q (burn s) = q s \<and> retvals (burn s) = retvals s \<and> timer (burn s) = timer s
   \<and> now (burn s) = now s \<and> started (burn s) = started s \<and> sent (burn s) = sent s
   \<and> spawned (burn s) = spawned s \<and> completions (burn s) = completions s"
proof (induction s rule: burn.induct)
  case (1 s)
  show ?case
  proof (cases "length (freeWindowList s) > 0")
    case True
    with 1 show ?thesis by (subst (1 2 3 4 5 6 7 8 9 10 11 12) burn.simps) simp
  next
    case False
    then show ?thesis by (simp add: burn.simps)
  qed
qed


lemma maxConcurrency_step [simp]: "maxConcurrency (step e s) = maxConcurrency s"
  by (cases e)
     (auto simp: moduleProxy_def merge_next_def Let_def spawn_done_def reply_def invoke_defs
        inner_completed_def subscriber_def timeout_fire_def throttle_fire_def advance_def
        split: option.splits slot.splits list.splits)

lemma maxConcurrency_run [simp]: "maxConcurrency (run s evs) = maxConcurrency s"
  by (induction evs arbitrary: s) simp_all

lemma length_settle [simp]: "length (settle i oc fs) = length fs"
  by (simp add: settle_def)

lemma reply_cases [case_names idle dead last_one next_one]:
  obtains "\<And>job w t d. List.find (is_invoking i) (inflight s) \<noteq> Some (Invoking job w t d)"
      "reply i oc s = s"
  | job w t d where "List.find (is_invoking i) (inflight s) = Some (Invoking job w t d)"
      "isStopped s"
      "reply i oc s = s\<lparr>inflight := remove1 (Invoking job w t d) (inflight s),
                           retvals := settle i oc (retvals s)\<rparr>"
  | job w t d where "List.find (is_invoking i) (inflight s) = Some (Invoking job w t d)"
      "\<not> isStopped s" "q s = []"
      "reply i oc s = (subscriber w (s\<lparr>inflight := remove1 (Invoking job w t d) (inflight s),
                           retvals := settle i oc (retvals s)\<rparr>))
                        \<lparr>activeCount := activeCount s - 1\<rparr>"
  | job w t d j rest where "List.find (is_invoking i) (inflight s) = Some (Invoking job w t d)"
      "\<not> isStopped s" "q s = j # rest"
      "reply i oc s = handleSubscribe j
          ((subscriber w (s\<lparr>inflight := remove1 (Invoking job w t d) (inflight s),
                           retvals := settle i oc (retvals s)\<rparr>))\<lparr>q := rest\<rparr>)"
proof (cases "List.find (is_invoking i) (inflight s)")
  case None
  then have "reply i oc s = s" by (simp add: reply_def)
  with None show ?thesis by (intro that(1)) simp_all
next
  case (Some sl)
  show ?thesis
  proof (cases sl)
    case (Spawning job w)
    with Some have "reply i oc s = s" by (simp add: reply_def)
    with Some Spawning show ?thesis by (intro that(1)) simp_all
  next
    case (Invoking job w t d)
    note f = Some [unfolded Invoking]
    show ?thesis
    proof (cases "isStopped s")
      case True
      with f show ?thesis by (intro that(2) [of job w t d]) (simp_all add: reply_def)
    next
      case False
      show ?thesis
      proof (cases "q s")
        case Nil
        with f False show ?thesis
          by (intro that(3) [of job w t d])
             (simp_all add: reply_def inner_completed_def subscriber_def)
      next
        case (Cons j rest)
        with f False show ?thesis
          by (intro that(4) [of job w t d j rest])
             (simp_all add: reply_def inner_completed_def subscriber_def)
      qed
    qed
  qed
qed

lemma spawned_handleSubscribe:
  "spawned (handleSubscribe job s) = (if freeWindowList s = [] then Suc (spawned s) else spawned s)"
  by (simp add: handleSubscribe_def getOrCreateWindow_def invoke_defs)

subsection \<open>The concurrency limit\<close>

lemma slots_ok_moduleProxy: "slots_ok s \<Longrightarrow> slots_ok (moduleProxy c a s)"
  by (auto simp: slots_ok_def moduleProxy_def merge_next_def Let_def)

lemma slots_ok_spawn_done: "slots_ok s \<Longrightarrow> slots_ok (spawn_done i r s)"
  by (auto simp: slots_ok_def spawn_done_def Let_def invoke_defs length_remove1_mem
           dest!: find_in_set split: option.splits slot.splits)

lemma slots_ok_reply: "slots_ok s \<Longrightarrow> slots_ok (reply i oc s)"
  by (auto simp: slots_ok_def reply_def Let_def inner_completed_def subscriber_def
             length_remove1_mem
           dest!: find_in_set split: option.splits slot.splits list.splits)

lemma slots_ok_timeout_fire: "slots_ok s \<Longrightarrow> slots_ok (timeout_fire i s)"
  by (simp add: timeout_fire_def slots_ok_reply split: option.splits slot.splits)

lemma slots_ok_throttle_fire: "slots_ok s \<Longrightarrow> slots_ok (throttle_fire s)"
  by (simp add: throttle_fire_def slots_ok_def split: option.splits)

lemma slots_ok_advance: "slots_ok s \<Longrightarrow> slots_ok (advance n s)"
  by (simp add: advance_def slots_ok_def)

lemma slots_ok_step: "slots_ok s \<Longrightarrow> slots_ok (step e s)"
  by (cases e)
     (simp_all add: slots_ok_moduleProxy slots_ok_spawn_done slots_ok_reply
        slots_ok_timeout_fire slots_ok_throttle_fire slots_ok_advance)

lemma slots_ok_run: "slots_ok s \<Longrightarrow> slots_ok (run s evs)"
  by (induction evs arbitrary: s) (simp_all add: slots_ok_step)

lemma slots_ok_init: "slots_ok (requireTaskPool p mc)"
  by (simp add: slots_ok_def requireTaskPool_def RendererTaskpoolItem_def)

text \<open>Calls alone fill the slots first and the buffer afterwards.\<close>

lemma only_calls:
  assumes "0 \<le> maxConcurrency (requireTaskPool p mc)"
  shows "\<not> isStopped (run (requireTaskPool p mc) (replicate k (Call c a)))
       \<and> activeCount (run (requireTaskPool p mc) (replicate k (Call c a)))
           = min (int k) (maxConcurrency (requireTaskPool p mc))
       \<and> length (q (run (requireTaskPool p mc) (replicate k (Call c a))))
           = k - nat (maxConcurrency (requireTaskPool p mc))"
proof (induction k)
  case 0
  show ?case using assms by (simp add: requireTaskPool_def RendererTaskpoolItem_def)
next
  case (Suc k)
  let ?s = "run (requireTaskPool p mc) (replicate k (Call c a))"
  have "replicate (Suc k) (Call c a) = replicate k (Call c a) @ [Call c a]"
    by (simp add: replicate_append_same)
  then have r: "run (requireTaskPool p mc) (replicate (Suc k) (Call c a)) = moduleProxy c a ?s"
    by (simp only: run_append run_Cons run_Nil step.simps)
  have m: "maxConcurrency ?s = maxConcurrency (requireTaskPool p mc)" by simp
  show ?case unfolding r using Suc assms m
    by (auto simp: moduleProxy_def merge_next_def Let_def simp del: maxConcurrency_run)
qed

text \<open>
  Claim C1. For a pool whose \<open>maxConcurrency\<close> is not negative and for every sequence of
  events, the number of invocations that hold a slot (spawning a window or waiting for the
  reply of one) never exceeds \<open>maxConcurrency\<close>; the buffer of invocations that have not been
  dispatched has no bound: \<open>n\<close> calls beyond the limit leave \<open>n\<close> invocations buffered, for
  every \<open>n\<close>.
\<close>

theorem concurrency_bound:
  assumes "0 \<le> maxConcurrency (requireTaskPool p mc)"
  shows "int (length (inflight (run (requireTaskPool p mc) evs)))
           \<le> maxConcurrency (requireTaskPool p mc)
       \<and> length (q (run (requireTaskPool p mc)
            (replicate (nat (maxConcurrency (requireTaskPool p mc)) + n) (Call c a)))) = n"
proof -
  let ?s = "run (requireTaskPool p mc) evs"
  have ok: "slots_ok ?s" by (rule slots_ok_run [OF slots_ok_init])
  have m: "maxConcurrency ?s = maxConcurrency (requireTaskPool p mc)" by simp
  from ok m assms have "int (length (inflight ?s)) \<le> maxConcurrency (requireTaskPool p mc)"
    unfolding slots_ok_def by linarith
  moreover have "length (q (run (requireTaskPool p mc)
            (replicate (nat (maxConcurrency (requireTaskPool p mc)) + n) (Call c a)))) = n"
    using only_calls [OF assms, of "nat (maxConcurrency (requireTaskPool p mc)) + n" c a] by simp
  ultimately show ?thesis by simp
qed

theorem concurrency_bound_witness:
  "(0::int) \<le> maxConcurrency (requireTaskPool ''mod'' (Some 1))
   \<and> int (length (inflight (run (requireTaskPool ''mod'' (Some 1))
        [Call [''__removeme__'', ''f''] [JNum 1], Call [''__removeme__'', ''g''] [],
         SpawnDone 0 None]))) = 1
   \<and> int (length (inflight (run (requireTaskPool ''mod'' (Some 1))
        [Call [''__removeme__'', ''f''] [JNum 1], Call [''__removeme__'', ''g''] [],
         SpawnDone 0 None]))) \<le> maxConcurrency (requireTaskPool ''mod'' (Some 1))
   \<and> length (q (run (requireTaskPool ''mod'' (Some 1))
        (replicate (nat (maxConcurrency (requireTaskPool ''mod'' (Some 1))) + 2)
           (Call [''__removeme__'', ''f''] [])))) = 2"
proof -
  have h: "(0::int) \<le> maxConcurrency (requireTaskPool ''mod'' (Some 1))"
    by (simp add: eval_defs)
  have e: "int (length (inflight (run (requireTaskPool ''mod'' (Some 1))
        [Call [''__removeme__'', ''f''] [JNum 1], Call [''__removeme__'', ''g''] [],
         SpawnDone 0 None]))) = 1"
    by (simp add: eval_defs)
  from h e concurrency_bound [OF h,
      of "[Call [''__removeme__'', ''f''] [JNum 1], Call [''__removeme__'', ''g''] [],
           SpawnDone 0 None]" 2 "[''__removeme__'', ''f'']" "[]"]
  show ?thesis by blast
qed

subsection \<open>Dispatch order\<close>

lemma fifo_ok_moduleProxy: "slots_ok s \<Longrightarrow> fifo_ok s \<Longrightarrow> fifo_ok (moduleProxy c a s)"
proof -
  assume ok: "slots_ok s" and "fifo_ok s"
  then obtain n where n: "started s @ map retval (q s) = [0..<n]" "n \<le> length (retvals s)"
      "isStopped s \<or> n = length (retvals s)"
    by (auto simp: fifo_ok_def)
  show ?thesis
  proof (cases "isStopped s")
    case True
    with n show ?thesis by (auto simp: fifo_ok_def moduleProxy_def Let_def)
  next
    case False
    with n have len: "n = length (retvals s)" by simp
    show ?thesis
    proof (cases "activeCount s < maxConcurrency s")
      case True
      with ok have "q s = []" by (auto simp: slots_ok_def)
      with n len False True show ?thesis
        unfolding fifo_ok_def
        by (intro exI [of _ "Suc n"]) (simp add: moduleProxy_def merge_next_def Let_def)
    next
      case nlt: False
      with n len False show ?thesis
        unfolding fifo_ok_def
        by (intro exI [of _ "Suc n"]) (simp add: moduleProxy_def merge_next_def Let_def)
    qed
  qed
qed


lemma fifo_ok_reply: "fifo_ok s \<Longrightarrow> fifo_ok (reply i oc s)"
proof (cases i oc s rule: reply_cases)
  case idle
  assume "fifo_ok s" with idle show ?thesis by simp
next
  case (dead job w t d)
  assume "fifo_ok s" with dead show ?thesis by (simp add: fifo_ok_def)
next
  case (last_one job w t d)
  assume "fifo_ok s" with last_one show ?thesis by (simp add: fifo_ok_def subscriber_def)
next
  case (next_one job w t d j rest)
  assume "fifo_ok s" with next_one show ?thesis by (simp add: fifo_ok_def subscriber_def)
qed

lemma fifo_ok_spawn_done: "fifo_ok s \<Longrightarrow> fifo_ok (spawn_done i r s)"
  by (auto simp: fifo_ok_def spawn_done_def Let_def invoke_defs
           split: option.splits slot.splits)

lemma fifo_ok_step: "slots_ok s \<Longrightarrow> fifo_ok s \<Longrightarrow> fifo_ok (step e s)"
proof (cases e)
  case (Timeout i)
  assume "fifo_ok s"
  then show ?thesis using Timeout
    by (simp add: timeout_fire_def fifo_ok_reply split: option.splits slot.splits)
next
  case ThrottleFire
  assume "fifo_ok s"
  then show ?thesis using ThrottleFire
    by (simp add: throttle_fire_def fifo_ok_def split: option.splits)
next
  case (Advance n)
  assume "fifo_ok s"
  then show ?thesis using Advance by (simp add: advance_def fifo_ok_def)
qed (simp_all add: fifo_ok_moduleProxy fifo_ok_reply fifo_ok_spawn_done)

lemma fifo_ok_run: "slots_ok s \<Longrightarrow> fifo_ok s \<Longrightarrow> fifo_ok (run s evs)"
  by (induction evs arbitrary: s) (simp_all add: fifo_ok_step slots_ok_step)

lemma fifo_ok_init: "fifo_ok (requireTaskPool p mc)"
  by (simp add: fifo_ok_def requireTaskPool_def RendererTaskpoolItem_def)

lemma upt_append_split:
  assumes "xs @ ys = [0..<n]"
  shows "xs = [0..<length xs] \<and> ys = [length xs..<length xs + length ys]"
proof -
  from assms have "length xs + length ys = n" by (metis length_append length_upt diff_zero)
  then have "[0..<n] = [0..<length xs] @ [length xs..<length xs + length ys]"
    by (metis upt_add_eq_append le0)
  with assms have "xs @ ys = [0..<length xs] @ [length xs..<length xs + length ys]" by simp
  then show ?thesis by (simp add: append_eq_append_conv)
qed

text \<open>
  Claim C4. \<open>moduleProxy\<close> numbers the futures in the order of the calls (each call appends
  one future). For every sequence of events, the list of dispatch starts is \<open>0, 1, 2, \<dots>\<close>
  without a gap, and the buffer holds the numbers that follow, in order: whatever the
  completions do, invocations are dispatched in the order they were submitted.
\<close>

theorem fifo_dispatch_start:
  "started (run (requireTaskPool p mc) evs)
     = [0..<length (started (run (requireTaskPool p mc) evs))]
   \<and> map retval (q (run (requireTaskPool p mc) evs))
     = [length (started (run (requireTaskPool p mc) evs))
        ..<length (started (run (requireTaskPool p mc) evs))
           + length (q (run (requireTaskPool p mc) evs))]
   \<and> length (started (run (requireTaskPool p mc) evs))
       + length (q (run (requireTaskPool p mc) evs))
       \<le> length (retvals (run (requireTaskPool p mc) evs))
   \<and> retvals (moduleProxy c a s) = retvals s @ [Pending]"
proof -
  let ?s = "run (requireTaskPool p mc) evs"
  have "fifo_ok ?s" by (rule fifo_ok_run [OF slots_ok_init fifo_ok_init])
  then obtain n where a: "started ?s @ map retval (q ?s) = [0..<n]"
    and b: "n \<le> length (retvals ?s)"
    by (auto simp: fifo_ok_def)
  from a have "length (started ?s) + length (q ?s) = n"
    by (metis length_append length_map length_upt diff_zero)
  with b have b': "length (started ?s) + length (q ?s) \<le> length (retvals ?s)" by simp
  have c: "retvals (moduleProxy c a s) = retvals s @ [Pending]"
    by (simp add: moduleProxy_def merge_next_def Let_def)
  from upt_append_split [OF a] b' c show ?thesis by simp
qed

text \<open>
  Three calls \<open>a\<close>, \<open>b\<close>, \<open>c\<close> on a pool with \<open>maxConcurrency = 1\<close>: the dispatches start in
  this order and the requests are sent in this order. Completions need not follow the
  order of the calls: of two requests in flight, the second may be answered first.
\<close>

theorem fifo_dispatch_start_witness:
  "started (run (requireTaskPool ''mod'' (Some 1))
      [Call [''__removeme__'', ''a''] [], Call [''__removeme__'', ''b''] [],
       Call [''__removeme__'', ''c''] [], SpawnDone 0 None,
       Reply 0 (Success (JNum 1)), Reply 1 (Failure (InvocationError ''no'')),
       Reply 2 (Success (JNum 3))]) = [0, 1, 2]
   \<and> map (chain \<circ> snd) (sent (run (requireTaskPool ''mod'' (Some 1))
      [Call [''__removeme__'', ''a''] [], Call [''__removeme__'', ''b''] [],
       Call [''__removeme__'', ''c''] [], SpawnDone 0 None,
       Reply 0 (Success (JNum 1)), Reply 1 (Failure (InvocationError ''no'')),
       Reply 2 (Success (JNum 3))]))
     = [[''requiredModule'', ''a''], [''requiredModule'', ''b''], [''requiredModule'', ''c'']]
   \<and> map retval (q (run (requireTaskPool ''mod'' (Some 1))
      [Call [''__removeme__'', ''a''] [], Call [''__removeme__'', ''b''] [],
       Call [''__removeme__'', ''c''] []])) = [1, 2]
   \<and> retvals (run (requireTaskPool ''mod'' None) (two_calls @ [Reply 1 (Success (JNum 4))]))
     = [Pending, Resolved (JNum 4)]"
proof -
  let ?evs = "[Call [''__removeme__'', ''a''] [], Call [''__removeme__'', ''b''] [],
       Call [''__removeme__'', ''c''] [], SpawnDone 0 None,
       Reply 0 (Success (JNum 1)), Reply 1 (Failure (InvocationError ''no'')),
       Reply 2 (Success (JNum 3))]"
  let ?s = "run (requireTaskPool ''mod'' (Some 1)) ?evs"
  have len: "length (started ?s) = 3" by (simp add: eval_defs)
  from fifo_dispatch_start [of "''mod''" "Some 1" ?evs] have "started ?s = [0..<length (started ?s)]"
    by blast
  with len have a: "started ?s = [0, 1, 2]" by (simp add: upt_rec)
  have b: "map (chain \<circ> snd) (sent ?s)
     = [[''requiredModule'', ''a''], [''requiredModule'', ''b''], [''requiredModule'', ''c'']]"
    by (simp add: eval_defs)
  have c: "map retval (q (run (requireTaskPool ''mod'' (Some 1))
      [Call [''__removeme__'', ''a''] [], Call [''__removeme__'', ''b''] [],
       Call [''__removeme__'', ''c''] []])) = [1, 2]"
    by (simp add: eval_defs)
  have d: "retvals (run (requireTaskPool ''mod'' None) (two_calls @ [Reply 1 (Success (JNum 4))]))
     = [Pending, Resolved (JNum 4)]"
    by (simp add: example_defs eval_defs)
  from a b c d show ?thesis by blast
qed

subsection \<open>Choice of the window\<close>

lemma spawned_step: "spawned (step e s) \<noteq> spawned s \<Longrightarrow> freeWindowList s = []"
  by (cases e)
     (auto simp: moduleProxy_def merge_next_def Let_def spawn_done_def reply_def invoke_defs
        inner_completed_def subscriber_def timeout_fire_def throttle_fire_def advance_def
        spawned_handleSubscribe
        split: option.splits slot.splits list.splits if_splits)

text \<open>
  Claim C5. A dispatch that finds the free list non-empty takes its last element, which is
  the window freed most recently (the subscriber appends a freed window at the end), sends
  the request to it and creates no window. A dispatch that finds the list empty creates a
  window; and no event creates a window unless the free list is empty when it arrives.
\<close>

theorem free_worker_reuse:
  "(freeWindowList s = ws @ [w] \<longrightarrow>
      freeWindowList (handleSubscribe job s) = ws
      \<and> spawned (handleSubscribe job s) = spawned s
      \<and> sent (handleSubscribe job s) = sent s @ [(w, job)]
      \<and> inflight (handleSubscribe job s) = inflight s @ [Invoking job w (now s) 240000])
   \<and> freeWindowList (handleSubscribe job (subscriber w s)) = freeWindowList s
   \<and> sent (handleSubscribe job (subscriber w s)) = sent s @ [(w, job)]
   \<and> spawned (handleSubscribe job (subscriber w s)) = spawned s
   \<and> (freeWindowList s = [] \<longrightarrow>
        spawned (handleSubscribe job s) = Suc (spawned s)
        \<and> sent (handleSubscribe job s) = sent s
        \<and> inflight (handleSubscribe job s) = inflight s @ [Spawning job (spawned s)])
   \<and> (spawned (step e s) \<noteq> spawned s \<longrightarrow> freeWindowList s = [])"
  using spawned_step [of e s]
  by (auto simp: handleSubscribe_def getOrCreateWindow_def invoke_defs subscriber_def)

theorem free_worker_reuse_witness:
  "freeWindowList (run (requireTaskPool ''mod'' None)
       [Call [''__removeme__'', ''f''] [], SpawnDone 0 None, Reply 0 (Success (JNum 1))])
     = [] @ [0]
   \<and> sent (handleSubscribe \<lparr>chain = [''requiredModule'', ''g''], args = [], retval = 1\<rparr>
        (run (requireTaskPool ''mod'' None)
          [Call [''__removeme__'', ''f''] [], SpawnDone 0 None, Reply 0 (Success (JNum 1))]))
     = sent (run (requireTaskPool ''mod'' None)
          [Call [''__removeme__'', ''f''] [], SpawnDone 0 None, Reply 0 (Success (JNum 1))])
       @ [(0, \<lparr>chain = [''requiredModule'', ''g''], args = [], retval = 1\<rparr>)]
   \<and> spawned (handleSubscribe \<lparr>chain = [''requiredModule'', ''g''], args = [], retval = 1\<rparr>
        (run (requireTaskPool ''mod'' None)
          [Call [''__removeme__'', ''f''] [], SpawnDone 0 None, Reply 0 (Success (JNum 1))]))
     = spawned (run (requireTaskPool ''mod'' None)
          [Call [''__removeme__'', ''f''] [], SpawnDone 0 None, Reply 0 (Success (JNum 1))])
   \<and> freeWindowList (requireTaskPool ''mod'' None) = []
   \<and> spawned (handleSubscribe \<lparr>chain = [''requiredModule'', ''g''], args = [], retval = 1\<rparr>
        (requireTaskPool ''mod'' None)) = Suc (spawned (requireTaskPool ''mod'' None))
   \<and> spawned (step (Call [''__removeme__'', ''f''] []) (requireTaskPool ''mod'' None))
     \<noteq> spawned (requireTaskPool ''mod'' None)"
proof -
  let ?s1 = "run (requireTaskPool ''mod'' None)
       [Call [''__removeme__'', ''f''] [], SpawnDone 0 None, Reply 0 (Success (JNum 1))]"
  let ?s0 = "requireTaskPool ''mod'' None"
  let ?j = "\<lparr>chain = [''requiredModule'', ''g''], args = [], retval = 1\<rparr>"
  let ?e = "Call [''__removeme__'', ''f''] []"
  have h1: "freeWindowList ?s1 = [] @ [0]" by (simp add: eval_defs)
  have h0: "freeWindowList ?s0 = []" by (simp add: eval_defs)
  have h2: "spawned (step ?e ?s0) \<noteq> spawned ?s0" by (simp add: eval_defs)
  from free_worker_reuse [of ?s1 "[]" 0 ?j ?e] h1
  have a: "sent (handleSubscribe ?j ?s1) = sent ?s1 @ [(0, ?j)]
           \<and> spawned (handleSubscribe ?j ?s1) = spawned ?s1" by blast
  from free_worker_reuse [of ?s0 "[]" 0 ?j ?e] h0 h2
  have b: "spawned (handleSubscribe ?j ?s0) = Suc (spawned ?s0)" by blast
  from h1 h0 h2 a b show ?thesis by blast
qed

subsection \<open>The chain sent to the window\<close>

lemma jobs_handleSubscribe: "jobs (handleSubscribe job s) = insert job (jobs s)"
  by (auto simp: jobs_def handleSubscribe_def getOrCreateWindow_def invoke_defs)

lemma jobs_moduleProxy:
  "jobs (moduleProxy c a s)
     \<subseteq> insert \<lparr>chain = ''requiredModule'' # tl c, args = a, retval = length (retvals s)\<rparr> (jobs s)"
  by (auto simp: moduleProxy_def merge_next_def Let_def jobs_handleSubscribe drop_Suc)
     (auto simp: jobs_def)

lemma set_remove1_slot: "slot_job ` set (remove1 x xs) \<subseteq> slot_job ` set xs"
  using set_remove1_subset [of x xs] by blast

lemma jobs_reply: "jobs (reply i oc s) \<subseteq> jobs s"
proof (cases i oc s rule: reply_cases)
  case idle
  then show ?thesis by simp
next
  case (dead job w t d)
  then show ?thesis using set_remove1_slot [of "Invoking job w t d" "inflight s"]
    by (auto simp: jobs_def)
next
  case (last_one job w t d)
  then show ?thesis using set_remove1_slot [of "Invoking job w t d" "inflight s"]
    by (auto simp: jobs_def subscriber_def)
next
  case (next_one job w t d j rest)
  then show ?thesis using set_remove1_slot [of "Invoking job w t d" "inflight s"]
    by (auto simp: jobs_handleSubscribe) (auto simp: jobs_def subscriber_def)
qed

lemma jobs_spawn_done: "jobs (spawn_done i r s) \<subseteq> jobs s"
proof (cases "List.find (is_spawning i) (inflight s)")
  case None
  then show ?thesis by (simp add: spawn_done_def)
next
  case (Some sl)
  show ?thesis
  proof (cases sl)
    case (Invoking job w t d)
    with Some show ?thesis by (simp add: spawn_done_def)
  next
    case (Spawning job w)
    with Some have "Spawning job w \<in> set (inflight s)" by (auto dest: find_in_set)
    then have "job \<in> jobs s" by (force simp: jobs_def)
    with Some Spawning show ?thesis
      using set_remove1_slot [of "Spawning job w" "inflight s"]
      by (auto simp: spawn_done_def Let_def invoke_defs jobs_def split: option.splits)
  qed
qed

lemma jobs_step_other:
  "jobs (timeout_fire i s) \<subseteq> jobs s" "jobs (throttle_fire s) \<subseteq> jobs s"
  "jobs (advance n s) \<subseteq> jobs s"
  using jobs_reply [of i "Failure TimeoutError" s]
  by (auto simp: timeout_fire_def throttle_fire_def advance_def jobs_def
           split: option.splits slot.splits)

lemma length_retvals_step:
  "length (retvals (step e s)) = length (retvals s) + length (calls [e])"
proof (cases e)
  case (Reply i oc)
  show ?thesis unfolding Reply
    by (cases i oc s rule: reply_cases) (simp_all add: subscriber_def)
next
  case (Timeout i)
  have "length (retvals (reply i (Failure TimeoutError) s)) = length (retvals s)"
    by (cases i "Failure TimeoutError" s rule: reply_cases) (simp_all add: subscriber_def)
  then show ?thesis unfolding Timeout
    by (simp add: timeout_fire_def split: option.splits slot.splits)
qed (auto simp: moduleProxy_def merge_next_def Let_def spawn_done_def invoke_defs
       throttle_fire_def advance_def split: option.splits slot.splits)

lemma rewritten_append: "rewritten cs job \<Longrightarrow> rewritten (cs @ cs') job"
  by (simp add: rewritten_def nth_append)

lemma chain_ok_step: "chain_ok cs s \<Longrightarrow> chain_ok (cs @ calls [e]) (step e s)"
proof -
  assume ok: "chain_ok cs s"
  then have len: "length (retvals (step e s)) = length (cs @ calls [e])"
    by (simp add: chain_ok_def length_retvals_step)
  have "rewritten (cs @ calls [e]) job" if "job \<in> jobs (step e s)" for job
  proof (cases e)
    case (Call c a)
    from that jobs_moduleProxy [of c a s]
    have "job = \<lparr>chain = ''requiredModule'' # tl c, args = a, retval = length (retvals s)\<rparr>
          \<or> job \<in> jobs s" unfolding Call by auto
    then show ?thesis
    proof
      assume "job \<in> jobs s"
      with ok show ?thesis by (simp add: chain_ok_def rewritten_append)
    next
      assume "job = \<lparr>chain = ''requiredModule'' # tl c, args = a, retval = length (retvals s)\<rparr>"
      with ok show ?thesis unfolding Call by (simp add: chain_ok_def rewritten_def)
    qed
  next
    case (SpawnDone i r)
    with that jobs_spawn_done [of i r s] have "job \<in> jobs s" by auto
    with ok show ?thesis by (simp add: chain_ok_def rewritten_append)
  next
    case (Reply i oc)
    with that jobs_reply [of i oc s] have "job \<in> jobs s" by auto
    with ok show ?thesis by (simp add: chain_ok_def rewritten_append)
  next
    case (Timeout i)
    with that jobs_step_other(1) [of i s] have "job \<in> jobs s" by auto
    with ok show ?thesis by (simp add: chain_ok_def rewritten_append)
  next
    case ThrottleFire
    with that jobs_step_other(2) [of s] have "job \<in> jobs s" by auto
    with ok show ?thesis by (simp add: chain_ok_def rewritten_append)
  next
    case (Advance n)
    with that jobs_step_other(3) [of n s] have "job \<in> jobs s" by auto
    with ok show ?thesis by (simp add: chain_ok_def rewritten_append)
  qed
  with len show ?thesis by (simp add: chain_ok_def)
qed

lemma calls_Cons: "calls (e # evs) = calls [e] @ calls evs"
  by (cases e) simp_all

lemma chain_ok_run: "chain_ok cs s \<Longrightarrow> chain_ok (cs @ calls evs) (run s evs)"
proof (induction evs arbitrary: cs s)
  case Nil
  then show ?case by simp
next
  case (Cons e evs)
  from Cons.prems have "chain_ok (cs @ calls [e]) (step e s)" by (rule chain_ok_step)
  then have "chain_ok ((cs @ calls [e]) @ calls evs) (run (step e s) evs)" by (rule Cons.IH)
  then show ?case by (simp add: calls_Cons [of e evs])
qed

lemma chain_ok_init: "chain_ok [] (requireTaskPool p mc)"
  by (simp add: chain_ok_def jobs_def requireTaskPool_def RendererTaskpoolItem_def)

lemma moduleProxy_enqueues:
  assumes "\<not> isStopped s"
  shows "\<lparr>chain = [''requiredModule''] @ tl c, args = a, retval = length (retvals s)\<rparr>
           \<in> set (q (moduleProxy c a s)) \<union> slot_job ` set (inflight (moduleProxy c a s))"
proof (cases "activeCount s < maxConcurrency s")
  case True
  let ?job = "\<lparr>chain = [''requiredModule''] @ tl c, args = a, retval = length (retvals s)\<rparr>"
  let ?s' = "s\<lparr>retvals := retvals s @ [Pending], activeCount := activeCount s + 1\<rparr>"
  from True assms have "moduleProxy c a s = handleSubscribe ?job ?s'"
    by (simp add: moduleProxy_def merge_next_def Let_def drop_Suc)
  moreover have "?job \<in> slot_job ` set (inflight (handleSubscribe ?job ?s'))"
    by (simp add: handleSubscribe_def getOrCreateWindow_def invoke_defs)
  ultimately show ?thesis by simp
next
  case False
  with assms show ?thesis
    by (simp add: moduleProxy_def merge_next_def Let_def drop_Suc)
qed

text \<open>
  Claim C9. Let \<open>calls evs\<close> be the proxied calls among the events, each with the captured
  chain and the arguments. Every invocation that the pool has buffered or has sent to a
  window belongs to one of these calls, and carries \<^verbatim>\<open>requiredModule\<close> followed by the call's
  chain without its first element, and the call's arguments unchanged. A call on a live
  pool does put this invocation into the buffer or into a slot.
\<close>

theorem proxy_root_replaced:
  assumes "job \<in> set (q (run (requireTaskPool p mc) evs))
           \<or> job \<in> snd ` set (sent (run (requireTaskPool p mc) evs))"
  shows "retval job < length (calls evs)
       \<and> chain job = [''requiredModule''] @ tl (fst (calls evs ! retval job))
       \<and> args job = snd (calls evs ! retval job)
       \<and> (isStopped s \<or>
            \<lparr>chain = [''requiredModule''] @ tl c, args = a, retval = length (retvals s)\<rparr>
              \<in> set (q (moduleProxy c a s)) \<union> slot_job ` set (inflight (moduleProxy c a s)))"
proof -
  have "chain_ok ([] @ calls evs) (run (requireTaskPool p mc) evs)"
    by (rule chain_ok_run [OF chain_ok_init])
  moreover from assms have "job \<in> jobs (run (requireTaskPool p mc) evs)"
    by (auto simp: jobs_def)
  ultimately have "rewritten (calls evs) job" by (simp add: chain_ok_def)
  then show ?thesis using moduleProxy_enqueues [of s c a] by (auto simp: rewritten_def)
qed

theorem proxy_root_replaced_witness:
  "\<lparr>chain = [''requiredModule'', ''foo'', ''bar''], args = [JNum 5], retval = 0\<rparr>
     \<in> snd ` set (sent (run (requireTaskPool ''mod'' None)
          [Call [''__removeme__'', ''foo'', ''bar''] [JNum 5], SpawnDone 0 None]))
   \<and> calls [Call [''__removeme__'', ''foo'', ''bar''] [JNum 5], SpawnDone 0 None] ! 0
       = ([''__removeme__'', ''foo'', ''bar''], [JNum 5])
   \<and> chain \<lparr>chain = [''requiredModule'', ''foo'', ''bar''], args = [JNum 5], retval = 0\<rparr>
       = [''requiredModule''] @ tl (fst (calls
            [Call [''__removeme__'', ''foo'', ''bar''] [JNum 5], SpawnDone 0 None] ! 0))
   \<and> args \<lparr>chain = [''requiredModule'', ''foo'', ''bar''], args = [JNum 5], retval = 0\<rparr>
       = snd (calls [Call [''__removeme__'', ''foo'', ''bar''] [JNum 5], SpawnDone 0 None] ! 0)"
proof -
  let ?evs = "[Call [''__removeme__'', ''foo'', ''bar''] [JNum 5], SpawnDone 0 None]"
  let ?job = "\<lparr>chain = [''requiredModule'', ''foo'', ''bar''], args = [JNum 5], retval = 0\<rparr>"
  have h: "?job \<in> snd ` set (sent (run (requireTaskPool ''mod'' None) ?evs))"
    by (simp add: eval_defs)
  have c: "calls ?evs ! 0 = ([''__removeme__'', ''foo'', ''bar''], [JNum 5])" by simp
  from h have "?job \<in> set (q (run (requireTaskPool ''mod'' None) ?evs))
               \<or> ?job \<in> snd ` set (sent (run (requireTaskPool ''mod'' None) ?evs))" ..
  from proxy_root_replaced [OF this] have
    "chain ?job = [''requiredModule''] @ tl (fst (calls ?evs ! retval ?job))
     \<and> args ?job = snd (calls ?evs ! retval ?job)" by blast
  with h c show ?thesis by simp
qed

subsection \<open>The idle subscriber\<close>

lemma reply_time_frame:
  "now (reply i oc s) = now s \<and> disposed (reply i oc s) = disposed s
   \<and> (completions (reply i oc s) = completions s \<and> timer (reply i oc s) = timer s
      \<or> completions (reply i oc s) = Suc (completions s)
        \<and> timer (reply i oc s) = Some (now s + 5000))"
  by (cases i oc s rule: reply_cases) (simp_all add: subscriber_def)

lemma step_time_frame:
  "now s \<le> now (step e s)
   \<and> (completions (step e s) = completions s
        \<and> (timer (step e s) = timer s \<or> e = ThrottleFire)
      \<or> completions (step e s) = Suc (completions s)
        \<and> timer (step e s) = Some (now (step e s) + 5000))"
proof (cases e)
  case (Reply i oc)
  then show ?thesis using reply_time_frame [of i oc s] by auto
next
  case (Timeout i)
  then show ?thesis using reply_time_frame [of i "Failure TimeoutError" s]
    by (auto simp: timeout_fire_def split: option.splits slot.splits)
qed (auto simp: moduleProxy_def merge_next_def Let_def spawn_done_def invoke_defs
       throttle_fire_def advance_def split: option.splits slot.splits)







subsection \<open>Futures and requests\<close>

lemma inflight_handleSubscribe:
  "\<exists>sl. inflight (handleSubscribe job s) = inflight s @ [sl] \<and> slot_job sl = job"
  by (simp add: handleSubscribe_def getOrCreateWindow_def invoke_defs)

lemma pending_ok_handleSubscribe:
  assumes "pending_ok s" "retval job \<notin> set (started s)" "retval job < length (retvals s)"
    "retvals s ! retval job = Pending"
  shows "pending_ok (handleSubscribe job s)"
proof -
  obtain sl where sl: "inflight (handleSubscribe job s) = inflight s @ [sl]" "slot_job sl = job"
    using inflight_handleSubscribe by blast
  then have id: "slot_id sl = retval job" by (simp add: slot_id_def)
  from assms(1) have "slot_id ` set (inflight s) \<subseteq> set (started s)"
    by (auto simp: pending_ok_def)
  with assms(2) id have "slot_id sl \<notin> slot_id ` set (inflight s)" by auto
  with assms sl id show ?thesis by (auto simp: pending_ok_def)
qed

lemma settle_other: "i \<noteq> k \<Longrightarrow> settle i oc fs ! k = fs ! k"
  by (simp add: settle_def)

lemma settle_same:
  "i < length fs \<Longrightarrow> fs ! i = Pending \<Longrightarrow>
   settle i oc fs ! i = (case oc of Success v \<Rightarrow> Resolved v | Failure e \<Rightarrow> Rejected e)"
  by (simp add: settle_def)

lemma distinct_ids_remove1:
  assumes "distinct (map f xs)" "x \<in> set xs"
  shows "distinct (map f (remove1 x xs)) \<and> f x \<notin> f ` set (remove1 x xs)"
  using assms
proof (induction xs)
  case Nil
  then show ?case by simp
next
  case (Cons y ys)
  show ?case
  proof (cases "x = y")
    case True
    with Cons.prems show ?thesis by simp
  next
    case False
    with Cons.prems have "x \<in> set ys" "distinct (map f ys)" by simp_all
    with Cons.IH have ih: "distinct (map f (remove1 x ys))" "f x \<notin> f ` set (remove1 x ys)"
      by simp_all
    have sub: "set (remove1 x ys) \<subseteq> set ys" by (rule set_remove1_subset)
    from Cons.prems have "f y \<notin> f ` set ys" by simp
    with \<open>x \<in> set ys\<close> have "f x \<noteq> f y" by (metis imageI)
    with False ih sub Cons.prems show ?thesis by auto
  qed
qed

lemma fifo_started_q_disjoint:
  assumes "fifo_ok s" "job \<in> set (q s)"
  shows "retval job \<notin> set (started s)"
proof -
  from assms(1) obtain n where "started s @ map retval (q s) = [0..<n]"
    by (auto simp: fifo_ok_def)
  then have "distinct (started s @ map retval (q s))" by simp
  with assms(2) show ?thesis by auto
qed

lemma pending_ok_settled:
  assumes "pending_ok s" "fifo_ok s" "List.find (is_invoking i) (inflight s) = Some (Invoking job w t d)"
  shows "pending_ok (s\<lparr>inflight := remove1 (Invoking job w t d) (inflight s),
                        retvals := settle i oc (retvals s)\<rparr>)"
proof -
  let ?X = "Invoking job w t d"
  from assms(3) have X: "?X \<in> set (inflight s)" "retval job = i"
    by (auto dest: find_in_set)
  then have idX: "slot_id ?X = i" by (simp add: slot_id_def)
  from assms(1) have dist: "distinct (map slot_id (inflight s))" by (simp add: pending_ok_def)
  from distinct_ids_remove1 [OF dist X(1)] idX
  have d': "distinct (map slot_id (remove1 ?X (inflight s)))"
    and notin: "i \<notin> slot_id ` set (remove1 ?X (inflight s))" by simp_all
  have sub: "set (remove1 ?X (inflight s)) \<subseteq> set (inflight s)" by (rule set_remove1_subset)
  from assms(1) X idX have istarted: "i \<in> set (started s)" by (auto simp: pending_ok_def)
  have a: "slot_id sl \<in> set (started s) \<and> slot_id sl < length (retvals s)
           \<and> settle i oc (retvals s) ! slot_id sl = Pending"
    if "sl \<in> set (remove1 ?X (inflight s))" for sl
  proof -
    from that notin have "i \<noteq> slot_id sl" by auto
    moreover from that sub have "sl \<in> set (inflight s)" by auto
    ultimately show ?thesis using assms(1) by (simp add: pending_ok_def settle_other)
  qed
  have b: "retval j < length (retvals s) \<and> settle i oc (retvals s) ! retval j = Pending"
    if "j \<in> set (q s)" for j
  proof -
    from fifo_started_q_disjoint [OF assms(2) that] istarted have "i \<noteq> retval j" by auto
    with that assms(1) show ?thesis by (simp add: pending_ok_def settle_other)
  qed
  from d' a b show ?thesis by (simp add: pending_ok_def)
qed

lemma pending_ok_reply:
  assumes "pending_ok s" "fifo_ok s"
  shows "pending_ok (reply i oc s)"
proof (cases i oc s rule: reply_cases)
  case idle
  with assms show ?thesis by simp
next
  case (dead job w t d)
  with pending_ok_settled [OF assms dead(1), of oc] show ?thesis by simp
next
  case (last_one job w t d)
  with pending_ok_settled [OF assms last_one(1), of oc] show ?thesis
    by (simp add: pending_ok_def subscriber_def)
next
  case (next_one job w t d j rest)
  let ?s1 = "s\<lparr>inflight := remove1 (Invoking job w t d) (inflight s),
                 retvals := settle i oc (retvals s)\<rparr>"
  let ?s2 = "(subscriber w ?s1)\<lparr>q := rest\<rparr>"
  have p1: "pending_ok ?s1" by (rule pending_ok_settled [OF assms next_one(1)])
  with next_one(3) have p2: "pending_ok ?s2" by (simp add: pending_ok_def subscriber_def)
  from next_one(3) have jq: "j \<in> set (q s)" by simp
  from fifo_started_q_disjoint [OF assms(2) jq]
  have n: "retval j \<notin> set (started ?s2)" by (simp add: subscriber_def)
  from p1 jq have "retval j < length (retvals ?s2)" "retvals ?s2 ! retval j = Pending"
    by (simp_all add: pending_ok_def subscriber_def)
  from pending_ok_handleSubscribe [OF p2 n this] next_one(4) show ?thesis by simp
qed

lemma fifo_started_bound:
  assumes "fifo_ok s"
  shows "length (retvals s) \<notin> set (started s)"
proof -
  from assms obtain n where n: "started s @ map retval (q s) = [0..<n]" "n \<le> length (retvals s)"
    by (auto simp: fifo_ok_def)
  then have "set (started s) \<subseteq> set [0..<n]" by (metis set_append Un_upper1)
  with n(2) show ?thesis by auto
qed

lemma pending_ok_moduleProxy:
  assumes "pending_ok s" "fifo_ok s"
  shows "pending_ok (moduleProxy c a s)"
proof -
  let ?s' = "s\<lparr>retvals := retvals s @ [Pending]\<rparr>"
  let ?job = "\<lparr>chain = [''requiredModule''] @ drop 1 c, args = a, retval = length (retvals s)\<rparr>"
  from assms(1) have p': "pending_ok ?s'" by (auto simp: pending_ok_def nth_append)
  show ?thesis
  proof (cases "isStopped s")
    case True
    with p' show ?thesis by (simp add: moduleProxy_def Let_def)
  next
    case False
    show ?thesis
    proof (cases "activeCount s < maxConcurrency s")
      case True
      let ?s2 = "?s'\<lparr>activeCount := activeCount ?s' + 1\<rparr>"
      from p' have p2: "pending_ok ?s2" by (simp add: pending_ok_def)
      from fifo_started_bound [OF assms(2)] have n: "retval ?job \<notin> set (started ?s2)" by simp
      have "retval ?job < length (retvals ?s2)" "retvals ?s2 ! retval ?job = Pending" by simp_all
      from pending_ok_handleSubscribe [OF p2 n this] True False show ?thesis
        by (simp add: moduleProxy_def merge_next_def Let_def)
    next
      case nlt: False
      with p' False show ?thesis
        by (simp add: moduleProxy_def merge_next_def Let_def pending_ok_def)
    qed
  qed
qed

lemma pending_ok_spawn_done:
  assumes "pending_ok s"
  shows "pending_ok (spawn_done i r s)"
proof (cases "List.find (is_spawning i) (inflight s)")
  case None
  with assms show ?thesis by (simp add: spawn_done_def)
next
  case (Some sl)
  show ?thesis
  proof (cases sl)
    case (Invoking job w t d)
    with Some assms show ?thesis by (simp add: spawn_done_def)
  next
    case (Spawning job w)
    let ?X = "Spawning job w"
    from Some Spawning have X: "?X \<in> set (inflight s)" by (auto dest: find_in_set)
    from assms have dist: "distinct (map slot_id (inflight s))" by (simp add: pending_ok_def)
    from distinct_ids_remove1 [OF dist X]
    have d': "distinct (map slot_id (remove1 ?X (inflight s)))"
      and notin: "retval job \<notin> slot_id ` set (remove1 ?X (inflight s))"
      by (simp_all add: slot_id_def)
    have sub: "set (remove1 ?X (inflight s)) \<subseteq> set (inflight s)" by (rule set_remove1_subset)
    from assms X have jobok: "retval job \<in> set (started s)" "retval job < length (retvals s)"
      "retvals s ! retval job = Pending" by (auto simp: pending_ok_def slot_id_def)
    from Some Spawning d' notin sub jobok assms show ?thesis
      by (auto simp: spawn_done_def Let_def invoke_defs pending_ok_def slot_id_def
               split: option.splits)
  qed
qed

lemma pending_ok_step: "pending_ok s \<Longrightarrow> fifo_ok s \<Longrightarrow> pending_ok (step e s)"
proof (cases e)
  case (Timeout i)
  assume "pending_ok s" "fifo_ok s"
  then show ?thesis using Timeout
    by (simp add: timeout_fire_def pending_ok_reply split: option.splits slot.splits)
next
  case ThrottleFire
  assume "pending_ok s"
  then show ?thesis using ThrottleFire
    by (simp add: throttle_fire_def pending_ok_def split: option.splits)
next
  case (Advance n)
  assume "pending_ok s"
  then show ?thesis using Advance by (simp add: advance_def pending_ok_def)
qed (simp_all add: pending_ok_moduleProxy pending_ok_reply pending_ok_spawn_done)



lemma list_all_remove1: "list_all P xs \<Longrightarrow> list_all P (remove1 x xs)"
  using set_remove1_subset [of x xs] by (auto simp: list_all_iff)

lemma timers_ok_handleSubscribe: "timers_ok s \<Longrightarrow> timers_ok (handleSubscribe job s)"
  by (simp add: timers_ok_def handleSubscribe_def getOrCreateWindow_def invoke_defs)

lemma timers_ok_moduleProxy: "timers_ok s \<Longrightarrow> timers_ok (moduleProxy c a s)"
proof -
  assume ok: "timers_ok s"
  then have "timers_ok (s\<lparr>retvals := retvals s @ [Pending], activeCount := activeCount s + 1\<rparr>)"
    by (simp add: timers_ok_def)
  from timers_ok_handleSubscribe [OF this] ok show ?thesis
    by (simp add: moduleProxy_def merge_next_def Let_def) (simp add: timers_ok_def)
qed

lemma timers_ok_reply: "timers_ok s \<Longrightarrow> timers_ok (reply i oc s)"
proof (cases i oc s rule: reply_cases)
  case idle
  assume "timers_ok s" with idle show ?thesis by simp
next
  case (dead job w t d)
  assume "timers_ok s" with dead show ?thesis by (simp add: timers_ok_def list_all_remove1)
next
  case (last_one job w t d)
  assume "timers_ok s" with last_one show ?thesis
    by (simp add: timers_ok_def list_all_remove1 subscriber_def)
next
  case (next_one job w t d j rest)
  assume "timers_ok s"
  then have "timers_ok ((subscriber w (s\<lparr>inflight := remove1 (Invoking job w t d) (inflight s),
                           retvals := settle i oc (retvals s)\<rparr>))\<lparr>q := rest\<rparr>)"
    by (simp add: timers_ok_def list_all_remove1 subscriber_def)
  from timers_ok_handleSubscribe [OF this] next_one show ?thesis by simp
qed

lemma timers_ok_spawn_done: "timers_ok s \<Longrightarrow> timers_ok (spawn_done i r s)"
  by (auto simp: timers_ok_def spawn_done_def Let_def invoke_defs list_all_remove1
           split: option.splits slot.splits)

lemma timers_ok_advance: "timers_ok s \<Longrightarrow> timers_ok (advance n s)"
proof (cases "can_advance n s")
  case False
  assume "timers_ok s" with False show ?thesis by (simp add: advance_def)
next
  case True
  assume ok: "timers_ok s"
  have "slot_timely (now s + n) sl" if "sl \<in> set (inflight s)" for sl
  proof (cases sl)
    case (Spawning job w)
    then show ?thesis by simp
  next
    case (Invoking job w t d)
    with that ok have "d = 240 * 1000 \<and> t \<le> now s" by (auto simp: timers_ok_def list_all_iff)
    moreover from that True Invoking have "now s + n \<le> t + d"
      by (auto simp: can_advance_def list_all_iff)
    ultimately show ?thesis using Invoking by simp
  qed
  with True show ?thesis by (simp add: advance_def timers_ok_def list_all_iff)
qed

lemma timers_ok_step: "timers_ok s \<Longrightarrow> timers_ok (step e s)"
proof (cases e)
  case (Timeout i)
  assume "timers_ok s"
  then show ?thesis using Timeout
    by (simp add: timeout_fire_def timers_ok_reply split: option.splits slot.splits)
next
  case ThrottleFire
  assume "timers_ok s"
  then show ?thesis using ThrottleFire
    by (simp add: throttle_fire_def timers_ok_def split: option.splits)
qed (simp_all add: timers_ok_moduleProxy timers_ok_reply timers_ok_spawn_done timers_ok_advance)

lemma sent_ok_handleSubscribe:
  assumes "sent_ok s" "retval job < length (retvals s)"
  shows "sent_ok (handleSubscribe job s)"
  using assms
  by (fastforce simp: sent_ok_def handleSubscribe_def getOrCreateWindow_def invoke_defs)

lemma settle_not_pending:
  "i < length fs \<Longrightarrow> settle i oc fs ! i \<noteq> Pending"
  by (cases oc) (auto simp: settle_def)

lemma sent_ok_settled:
  assumes "sent_ok s" "pending_ok s"
    "List.find (is_invoking i) (inflight s) = Some (Invoking job w t d)"
  shows "sent_ok (s\<lparr>inflight := remove1 (Invoking job w t d) (inflight s),
                     retvals := settle i oc (retvals s)\<rparr>)"
proof -
  let ?X = "Invoking job w t d"
  from assms(3) have X: "?X \<in> set (inflight s)" "retval job = i"
    by (auto dest: find_in_set)
  with assms(2) have i: "i < length (retvals s)" by (auto simp: pending_ok_def slot_id_def)
  have "\<exists>t' d'. Invoking job' w' t' d' \<in> set (remove1 ?X (inflight s))"
    if mem: "(w', job') \<in> set (sent s)" and pend: "settle i oc (retvals s) ! retval job' = Pending"
    for w' job'
  proof -
    from pend settle_not_pending [OF i, of oc] have ne: "i \<noteq> retval job'" by auto
    with pend have "retvals s ! retval job' = Pending" by (simp add: settle_other)
    with mem assms(1) obtain t' d' where "Invoking job' w' t' d' \<in> set (inflight s)"
      by (auto simp: sent_ok_def)
    moreover from ne X(2) have "Invoking job' w' t' d' \<noteq> ?X" by auto
    ultimately show ?thesis by (metis in_set_remove1)
  qed
  with assms(1) show ?thesis by (auto simp: sent_ok_def)
qed

lemma sent_ok_reply:
  assumes "sent_ok s" "pending_ok s" "fifo_ok s"
  shows "sent_ok (reply i oc s)"
proof (cases i oc s rule: reply_cases)
  case idle
  with assms show ?thesis by simp
next
  case (dead job w t d)
  with sent_ok_settled [OF assms(1,2) dead(1), of oc] show ?thesis by simp
next
  case (last_one job w t d)
  with sent_ok_settled [OF assms(1,2) last_one(1), of oc] show ?thesis
    by (simp add: sent_ok_def subscriber_def)
next
  case (next_one job w t d j rest)
  let ?s1 = "s\<lparr>inflight := remove1 (Invoking job w t d) (inflight s),
                 retvals := settle i oc (retvals s)\<rparr>"
  let ?s2 = "(subscriber w ?s1)\<lparr>q := rest\<rparr>"
  have "sent_ok ?s1" by (rule sent_ok_settled [OF assms(1,2) next_one(1)])
  then have s2: "sent_ok ?s2" by (simp add: sent_ok_def subscriber_def)
  from next_one(3) assms(2) have "retval j < length (retvals ?s2)"
    by (simp add: pending_ok_def subscriber_def)
  from sent_ok_handleSubscribe [OF s2 this] next_one(4) show ?thesis by simp
qed

lemma sent_ok_moduleProxy:
  assumes "sent_ok s"
  shows "sent_ok (moduleProxy c a s)"
proof -
  let ?s' = "s\<lparr>retvals := retvals s @ [Pending]\<rparr>"
  from assms have s': "sent_ok ?s'" by (fastforce simp: sent_ok_def nth_append)
  then have "sent_ok (?s'\<lparr>activeCount := activeCount ?s' + 1\<rparr>)" by (simp add: sent_ok_def)
  from sent_ok_handleSubscribe [OF this] s' show ?thesis
    by (simp add: moduleProxy_def merge_next_def Let_def) (simp add: sent_ok_def)
qed

lemma sent_ok_spawn_done:
  assumes "sent_ok s" "pending_ok s"
  shows "sent_ok (spawn_done i r s)"
proof (cases "List.find (is_spawning i) (inflight s)")
  case None
  with assms show ?thesis by (simp add: spawn_done_def)
next
  case (Some sl)
  show ?thesis
  proof (cases sl)
    case (Invoking job w t d)
    with Some assms show ?thesis by (simp add: spawn_done_def)
  next
    case (Spawning job w)
    let ?X = "Spawning job w"
    let ?s' = "s\<lparr>inflight := remove1 ?X (inflight s)\<rparr>"
    from Some Spawning have X: "?X \<in> set (inflight s)" by (auto dest: find_in_set)
    with assms(2) have len: "retval job < length (retvals s)"
      by (auto simp: pending_ok_def slot_id_def)
    have keep: "Invoking j' w' t' d' \<in> set (remove1 ?X (inflight s))"
      if "Invoking j' w' t' d' \<in> set (inflight s)" for j' w' t' d'
      using that by (simp add: in_set_remove1)
    with assms(1) have s': "sent_ok ?s'" by (fastforce simp: sent_ok_def)
    then have "sent_ok (?s'\<lparr>isStopped := True\<rparr>)" by (simp add: sent_ok_def)
    moreover from s' len have "sent_ok (wnd_executeJavaScriptMethodObservable w job ?s')"
      by (fastforce simp: sent_ok_def invoke_defs)
    ultimately show ?thesis using Some Spawning s'
      by (simp add: spawn_done_def Let_def split: option.splits)
  qed
qed

lemma sent_ok_step: "sent_ok s \<Longrightarrow> pending_ok s \<Longrightarrow> fifo_ok s \<Longrightarrow> sent_ok (step e s)"
proof (cases e)
  case (Timeout i)
  assume "sent_ok s" "pending_ok s" "fifo_ok s"
  then show ?thesis using Timeout
    by (simp add: timeout_fire_def sent_ok_reply split: option.splits slot.splits)
next
  case ThrottleFire
  assume "sent_ok s"
  then show ?thesis using ThrottleFire
    by (simp add: throttle_fire_def sent_ok_def split: option.splits)
next
  case (Advance n)
  assume "sent_ok s"
  then show ?thesis using Advance by (simp add: advance_def sent_ok_def)
qed (simp_all add: sent_ok_moduleProxy sent_ok_reply sent_ok_spawn_done)

lemma pool_ok_step: "pool_ok s \<Longrightarrow> pool_ok (step e s)"
  by (simp add: pool_ok_def slots_ok_step fifo_ok_step pending_ok_step timers_ok_step sent_ok_step)

lemma pool_ok_run: "pool_ok s \<Longrightarrow> pool_ok (run s evs)"
  by (induction evs arbitrary: s) (simp_all add: pool_ok_step)

lemma pool_ok_init: "pool_ok (requireTaskPool p mc)"
  by (simp add: pool_ok_def slots_ok_init fifo_ok_init)
     (simp add: pending_ok_def timers_ok_def sent_ok_def requireTaskPool_def RendererTaskpoolItem_def)

subsection \<open>Reachable states\<close>

lemma find_invoking_distinct:
  assumes "distinct (map slot_id xs)" "Invoking job w t d \<in> set xs"
  shows "List.find (is_invoking (retval job)) xs = Some (Invoking job w t d)"
  using assms
proof (induction xs)
  case Nil
  then show ?case by simp
next
  case (Cons x xs)
  show ?case
  proof (cases "x = Invoking job w t d")
    case True
    then show ?thesis by simp
  next
    case False
    with Cons.prems have mem: "Invoking job w t d \<in> set xs" by simp
    then have "slot_id (Invoking job w t d) \<in> slot_id ` set xs" by (rule imageI)
    with Cons.prems(1) have "slot_id x \<noteq> retval job" by (auto simp: slot_id_def)
    then have "\<not> is_invoking (retval job) x" by (cases x) (auto simp: slot_id_def)
    with Cons mem show ?thesis by simp
  qed
qed

lemma retvals_reply:
  assumes "List.find (is_invoking i) (inflight s) = Some (Invoking job w t d)"
  shows "retvals (reply i oc s) = settle i oc (retvals s)"
  using assms by (cases i oc s rule: reply_cases) (simp_all add: subscriber_def)

lemma pool_ok_reachable: "pool_ok (run (requireTaskPool p mc) evs)"
  by (rule pool_ok_run [OF pool_ok_init])

text \<open>A future that has been settled keeps its outcome.\<close>

lemma settle_keeps: "fs ! k \<noteq> Pending \<Longrightarrow> settle i oc fs ! k = fs ! k"
  by (cases "i = k") (simp_all add: settle_def)

lemma reply_retvals_cases:
  "retvals (reply i oc s) = retvals s \<or> retvals (reply i oc s) = settle i oc (retvals s)"
  by (cases i oc s rule: reply_cases) (simp_all add: subscriber_def)

lemma settled_once_step:
  assumes "k < length (retvals s)" "retvals s ! k \<noteq> Pending"
  shows "retvals (step e s) ! k = retvals s ! k"
proof (cases e)
  case (Call c a)
  with assms show ?thesis by (simp add: moduleProxy_def merge_next_def Let_def nth_append)
next
  case (SpawnDone i r)
  then show ?thesis
    by (simp add: spawn_done_def Let_def invoke_defs split: option.splits slot.splits)
next
  case (Reply i oc)
  with assms reply_retvals_cases [of i oc s] show ?thesis by (auto simp: settle_keeps)
next
  case (Timeout i)
  with assms reply_retvals_cases [of i "Failure TimeoutError" s] show ?thesis
    by (auto simp: timeout_fire_def settle_keeps split: option.splits slot.splits)
next
  case ThrottleFire
  then show ?thesis by (simp add: throttle_fire_def split: option.splits)
next
  case (Advance n)
  then show ?thesis by (simp add: advance_def)
qed

lemma length_retvals_mono: "length (retvals s) \<le> length (retvals (step e s))"
  by (simp add: length_retvals_step)

lemma settled_once:
  assumes "k < length (retvals s)" "retvals s ! k \<noteq> Pending"
  shows "retvals (run s evs) ! k = retvals s ! k"
  using assms
proof (induction evs arbitrary: s)
  case Nil
  show ?case by simp
next
  case (Cons e evs)
  from settled_once_step [OF Cons.prems] have eq: "retvals (step e s) ! k = retvals s ! k" .
  from Cons.prems(1) length_retvals_mono [of s e] have "k < length (retvals (step e s))" by simp
  from Cons.IH [OF this] eq Cons.prems(2) show ?case by simp
qed

subsection \<open>The timeout of a remote call\<close>




subsection \<open>The window after a call\<close>

text \<open>
  Claim C2, as amended. In every reachable state with a live pipeline, when the remote call
  of an invocation in flight ends, with a value or with any error, the future is settled
  with that outcome, a completion is signalled, no window is closed, and the window is
  pushed onto the free list; if an invocation is buffered, the oldest one is dispatched at
  once and takes this window again. The pool has no class of fatal worker faults: an error
  of a broken transport is handled like any other.
\<close>

theorem worker_returned:
  assumes "\<not> isStopped (run (requireTaskPool p mc) evs)"
    and "Invoking job w t d \<in> set (inflight (run (requireTaskPool p mc) evs))"
  shows "retvals (step (Reply (retval job) oc) (run (requireTaskPool p mc) evs)) ! retval job
           = (case oc of Success v \<Rightarrow> Resolved v | Failure e \<Rightarrow> Rejected e)
       \<and> completions (step (Reply (retval job) oc) (run (requireTaskPool p mc) evs))
           = Suc (completions (run (requireTaskPool p mc) evs))
       \<and> disposed (step (Reply (retval job) oc) (run (requireTaskPool p mc) evs))
           = disposed (run (requireTaskPool p mc) evs)
       \<and> (case q (run (requireTaskPool p mc) evs) of
             [] \<Rightarrow> freeWindowList (step (Reply (retval job) oc) (run (requireTaskPool p mc) evs))
                    = freeWindowList (run (requireTaskPool p mc) evs) @ [w]
           | j # rest \<Rightarrow>
                  freeWindowList (step (Reply (retval job) oc) (run (requireTaskPool p mc) evs))
                    = freeWindowList (run (requireTaskPool p mc) evs)
                  \<and> sent (step (Reply (retval job) oc) (run (requireTaskPool p mc) evs))
                    = sent (run (requireTaskPool p mc) evs) @ [(w, j)])"
proof -
  let ?s = "run (requireTaskPool p mc) evs"
  have ok: "pool_ok ?s" by (rule pool_ok_reachable)
  then have p: "pending_ok ?s" by (simp add: pool_ok_def)
  then have "distinct (map slot_id (inflight ?s))" by (simp add: pending_ok_def)
  from find_invoking_distinct [OF this assms(2)]
  have f: "List.find (is_invoking (retval job)) (inflight ?s) = Some (Invoking job w t d)" .
  from p assms(2) have len: "retval job < length (retvals ?s)"
    and pend: "retvals ?s ! retval job = Pending"
    by (auto simp: pending_ok_def slot_id_def)
  have r: "retvals (reply (retval job) oc ?s) ! retval job
           = (case oc of Success v \<Rightarrow> Resolved v | Failure e \<Rightarrow> Rejected e)"
    using retvals_reply [OF f] settle_same [OF len pend] by simp
  have rest: "completions (reply (retval job) oc ?s) = Suc (completions ?s)
       \<and> disposed (reply (retval job) oc ?s) = disposed ?s
       \<and> (case q ?s of
             [] \<Rightarrow> freeWindowList (reply (retval job) oc ?s) = freeWindowList ?s @ [w]
           | j # rest \<Rightarrow> freeWindowList (reply (retval job) oc ?s) = freeWindowList ?s
                  \<and> sent (reply (retval job) oc ?s) = sent ?s @ [(w, j)])"
    using f assms(1)
    by (cases "retval job" oc ?s rule: reply_cases)
       (simp_all add: subscriber_def handleSubscribe_def getOrCreateWindow_def invoke_defs)
  show ?thesis unfolding step.simps using r rest by blast
qed


theorem worker_returned_witness:
  "\<not> isStopped (run (requireTaskPool ''mod'' None) two_calls)
   \<and> Invoking \<lparr>chain = [''requiredModule'', ''f''], args = [JNum 1], retval = 0\<rparr> 0 0 240000
       \<in> set (inflight (run (requireTaskPool ''mod'' None) two_calls))
   \<and> q (run (requireTaskPool ''mod'' None) two_calls) = []
   \<and> retvals (step (Reply 0 (Failure (InvocationError ''boom'')))
         (run (requireTaskPool ''mod'' None) two_calls)) ! 0
       = Rejected (InvocationError ''boom'')
   \<and> completions (step (Reply 0 (Failure (InvocationError ''boom'')))
         (run (requireTaskPool ''mod'' None) two_calls))
       = Suc (completions (run (requireTaskPool ''mod'' None) two_calls))
   \<and> freeWindowList (step (Reply 0 (Failure (InvocationError ''boom'')))
         (run (requireTaskPool ''mod'' None) two_calls))
       = freeWindowList (run (requireTaskPool ''mod'' None) two_calls) @ [0]"
proof -
  let ?s = "run (requireTaskPool ''mod'' None) two_calls"
  let ?j = "\<lparr>chain = [''requiredModule'', ''f''], args = [JNum 1], retval = 0\<rparr>"
  have h1: "\<not> isStopped ?s" by (simp add: example_defs eval_defs)
  have h2: "Invoking ?j 0 0 240000 \<in> set (inflight ?s)" by (simp add: example_defs eval_defs)
  have h3: "q ?s = []" by (simp add: example_defs eval_defs)
  from worker_returned [OF h1 h2, of "Failure (InvocationError ''boom'')"] h3
  have "retvals (step (Reply 0 (Failure (InvocationError ''boom''))) ?s) ! 0
          = Rejected (InvocationError ''boom'')
        \<and> completions (step (Reply 0 (Failure (InvocationError ''boom''))) ?s)
          = Suc (completions ?s)
        \<and> freeWindowList (step (Reply 0 (Failure (InvocationError ''boom''))) ?s)
          = freeWindowList ?s @ [0]"
    by simp
  with h1 h2 h3 show ?thesis by blast
qed

text \<open>
  The claim as stated fails: after a failure reported as a fatal worker fault, window 0 is
  on the free list, it has not been closed, and the next call is sent to it. The same
  holds for a window that never answers: when the timeout has fired, the window is on the
  free list.
\<close>

theorem fatal_fault_counterexample:
  "freeWindowList (run (requireTaskPool ''mod'' None)
      [Call [''__removeme__'', ''f''] [], SpawnDone 0 None,
       Reply 0 (Failure (FatalWorkerError ''renderer crashed''))]) = [0]
   \<and> disposed (run (requireTaskPool ''mod'' None)
      [Call [''__removeme__'', ''f''] [], SpawnDone 0 None,
       Reply 0 (Failure (FatalWorkerError ''renderer crashed''))]) = []
   \<and> retvals (run (requireTaskPool ''mod'' None)
      [Call [''__removeme__'', ''f''] [], SpawnDone 0 None,
       Reply 0 (Failure (FatalWorkerError ''renderer crashed''))])
     = [Rejected (FatalWorkerError ''renderer crashed'')]
   \<and> sent (run (requireTaskPool ''mod'' None)
      [Call [''__removeme__'', ''f''] [], SpawnDone 0 None,
       Reply 0 (Failure (FatalWorkerError ''renderer crashed'')),
       Call [''__removeme__'', ''g''] []])
     = [(0, \<lparr>chain = [''requiredModule'', ''f''], args = [], retval = 0\<rparr>),
        (0, \<lparr>chain = [''requiredModule'', ''g''], args = [], retval = 1\<rparr>)]
   \<and> freeWindowList (run (requireTaskPool ''mod'' None)
      [Call [''__removeme__'', ''f''] [], SpawnDone 0 None, Advance 240000, Timeout 0]) = [0]
   \<and> disposed (run (requireTaskPool ''mod'' None)
      [Call [''__removeme__'', ''f''] [], SpawnDone 0 None, Advance 240000, Timeout 0]) = []"
  by (simp add: eval_defs)

subsection \<open>A failed spawn\<close>

lemma dead_step:
  assumes "dead s"
  shows "dead (step e s) \<and> started (step e s) = started s \<and> sent (step e s) = sent s
       \<and> spawned (step e s) = spawned s \<and> q (step e s) = q s
       \<and> retvals (step e s) = retvals s @ replicate (length (calls [e])) Pending"
  using assms
  by (cases e)
     (auto simp: dead_def moduleProxy_def Let_def spawn_done_def reply_def timeout_fire_def
        throttle_fire_def advance_def split: option.splits)

lemma dead_run:
  assumes "dead s"
  shows "dead (run s evs) \<and> started (run s evs) = started s \<and> sent (run s evs) = sent s
       \<and> spawned (run s evs) = spawned s \<and> q (run s evs) = q s
       \<and> retvals (run s evs) = retvals s @ replicate (length (calls evs)) Pending"
  using assms
proof (induction evs arbitrary: s)
  case Nil
  then show ?case by simp
next
  case (Cons e evs)
  from dead_step [OF Cons.prems, of e] have d: "dead (step e s)"
    and eq: "started (step e s) = started s" "sent (step e s) = sent s"
      "spawned (step e s) = spawned s" "q (step e s) = q s"
      "retvals (step e s) = retvals s @ replicate (length (calls [e])) Pending"
    by simp_all
  from Cons.IH [OF d] eq show ?case
    by (simp add: calls_Cons [of e evs] replicate_add)
qed

lemma spawn_failure_state:
  "dead (run (requireTaskPool p None) [Call c a, SpawnDone 0 (Some e)])
   \<and> started (run (requireTaskPool p None) [Call c a, SpawnDone 0 (Some e)]) = [0]
   \<and> sent (run (requireTaskPool p None) [Call c a, SpawnDone 0 (Some e)]) = []
   \<and> spawned (run (requireTaskPool p None) [Call c a, SpawnDone 0 (Some e)]) = 1
   \<and> q (run (requireTaskPool p None) [Call c a, SpawnDone 0 (Some e)]) = []
   \<and> retvals (run (requireTaskPool p None) [Call c a, SpawnDone 0 (Some e)]) = [Pending]"
  by (simp add: dead_def eval_defs)

text \<open>
  Claim C3 fails on the code. A default pool receives a call, and the spawn it triggers
  fails. Whatever events follow, the pipeline stays disposed, the future of the call stays
  pending (it is not rejected with the spawn error), and every later call gets a future but
  is neither buffered nor dispatched: no dispatch starts, no window is created and no
  request is sent ever again.
\<close>

theorem spawn_failure_poisons:
  "isStopped (run (requireTaskPool p None) (Call c a # SpawnDone 0 (Some e) # evs))
   \<and> retvals (run (requireTaskPool p None) (Call c a # SpawnDone 0 (Some e) # evs)) ! 0 = Pending
   \<and> length (retvals (run (requireTaskPool p None) (Call c a # SpawnDone 0 (Some e) # evs)))
       = 1 + length (calls evs)
   \<and> started (run (requireTaskPool p None) (Call c a # SpawnDone 0 (Some e) # evs)) = [0]
   \<and> sent (run (requireTaskPool p None) (Call c a # SpawnDone 0 (Some e) # evs)) = []
   \<and> spawned (run (requireTaskPool p None) (Call c a # SpawnDone 0 (Some e) # evs)) = 1
   \<and> q (run (requireTaskPool p None) (Call c a # SpawnDone 0 (Some e) # evs)) = []"
proof -
  let ?s = "run (requireTaskPool p None) [Call c a, SpawnDone 0 (Some e)]"
  have r: "run (requireTaskPool p None) (Call c a # SpawnDone 0 (Some e) # evs) = run ?s evs"
    by simp
  from spawn_failure_state [of p c a e] have d: "dead ?s" by simp
  from dead_run [OF d, of evs] spawn_failure_state [of p c a e]
  show ?thesis unfolding r by (simp add: dead_def)
qed

text \<open>
  Claim C7 fails on the code, by the same defect. After a failed spawn and one more call,
  whatever events follow, every future the pool has handed out is pending: the one of the
  call whose spawn failed, the one of the call made afterwards, and those of all later
  calls. None of them is ever resolved or rejected, and no request is sent.
\<close>

theorem futures_never_settle:
  "retvals (run (requireTaskPool p None)
      ([Call c a, SpawnDone 0 (Some e), Call c' a'] @ evs))
     = replicate (2 + length (calls evs)) Pending
   \<and> sent (run (requireTaskPool p None)
      ([Call c a, SpawnDone 0 (Some e), Call c' a'] @ evs)) = []"
proof -
  let ?s = "run (requireTaskPool p None) [Call c a, SpawnDone 0 (Some e)]"
  have r: "run (requireTaskPool p None) ([Call c a, SpawnDone 0 (Some e), Call c' a'] @ evs)
           = run ?s (Call c' a' # evs)"
    by simp
  from spawn_failure_state [of p c a e] have d: "dead ?s" by simp
  from dead_run [OF d, of "Call c' a' # evs"] spawn_failure_state [of p c a e]
  show ?thesis unfolding r by simp
qed

subsection \<open>Configuration\<close>

lemma unused_step:
  assumes "unused s"
  shows "unused (step e s) \<and> length (q (step e s)) = length (q s) + length (calls [e])"
  using assms
  by (cases e)
     (auto simp: unused_def moduleProxy_def merge_next_def Let_def spawn_done_def reply_def
        timeout_fire_def throttle_fire_def advance_def split: option.splits)

lemma unused_run:
  assumes "unused s"
  shows "unused (run s evs) \<and> length (q (run s evs)) = length (q s) + length (calls evs)"
  using assms
proof (induction evs arbitrary: s)
  case Nil
  then show ?case by simp
next
  case (Cons e evs)
  from unused_step [OF Cons.prems, of e] have u: "unused (step e s)"
    and l: "length (q (step e s)) = length (q s) + length (calls [e])" by simp_all
  from Cons.IH [OF u] l show ?case by (simp add: calls_Cons [of e evs])
qed

lemma reap_timer_ok_reply: "reap_timer_ok s \<Longrightarrow> reap_timer_ok (reply i oc s)"
  using reply_time_frame [of i oc s] by (auto simp: reap_timer_ok_def split: option.splits)

lemma reap_timer_ok_step: "reap_timer_ok s \<Longrightarrow> reap_timer_ok (step e s)"
proof (cases e)
  case (Reply i oc)
  assume "reap_timer_ok s"
  then show ?thesis using Reply by (simp add: reap_timer_ok_reply)
next
  case (Timeout i)
  assume "reap_timer_ok s"
  then show ?thesis using Timeout
    by (simp add: timeout_fire_def reap_timer_ok_reply split: option.splits slot.splits)
next
  case (Call c a)
  assume "reap_timer_ok s"
  then show ?thesis using Call
    by (auto simp: reap_timer_ok_def moduleProxy_def merge_next_def Let_def split: option.splits)
next
  case (SpawnDone i r)
  assume "reap_timer_ok s"
  then show ?thesis using SpawnDone
    by (auto simp: reap_timer_ok_def spawn_done_def Let_def invoke_defs
             split: option.splits slot.splits)
next
  case ThrottleFire
  assume "reap_timer_ok s"
  then show ?thesis using ThrottleFire
    by (auto simp: reap_timer_ok_def throttle_fire_def split: option.splits)
next
  case (Advance n)
  assume "reap_timer_ok s"
  then show ?thesis using Advance
    by (auto simp: reap_timer_ok_def advance_def can_advance_def split: option.splits)
qed

lemma reap_timer_ok_run: "reap_timer_ok s \<Longrightarrow> reap_timer_ok (run s evs)"
  by (induction evs arbitrary: s) (simp_all add: reap_timer_ok_step)

lemma reap_timer_ok_init: "reap_timer_ok (requireTaskPool p mc)"
  by (simp add: reap_timer_ok_def requireTaskPool_def RendererTaskpoolItem_def)

text \<open>
  Claim C8, as amended. The only thing a caller configures is \<open>maxConcurrency\<close>: it is 4 when
  \<^verbatim>\<open>requireTaskPool\<close> is called without it and the given number otherwise, and it never
  changes. The number is not checked: with zero or a negative number the pool is created
  all the same and then never dispatches anything, every call being buffered. The quiet
  interval of the idle subscriber cannot be configured: in every pool, whatever the
  arguments, every completion sets the timer to 5000 milliseconds from then, and a running
  timer is always due within 5000 milliseconds.
\<close>

theorem configuration_surface:
  "maxConcurrency (run (requireTaskPool p None) evs) = 4
   \<and> maxConcurrency (run (requireTaskPool p (Some m)) evs) = m
   \<and> (m \<le> 0 \<longrightarrow>
        started (run (requireTaskPool p (Some m)) evs) = []
        \<and> sent (run (requireTaskPool p (Some m)) evs) = []
        \<and> length (q (run (requireTaskPool p (Some m)) evs)) = length (calls evs))
   \<and> (completions (step e (run (requireTaskPool p mc) evs))
         \<noteq> completions (run (requireTaskPool p mc) evs) \<longrightarrow>
        timer (step e (run (requireTaskPool p mc) evs))
          = Some (now (step e (run (requireTaskPool p mc) evs)) + 5 * 1000))
   \<and> (timer (run (requireTaskPool p mc) evs) = Some d \<longrightarrow>
        now (run (requireTaskPool p mc) evs) \<le> d
        \<and> d \<le> now (run (requireTaskPool p mc) evs) + 5 * 1000)"
proof -
  have a: "maxConcurrency (run (requireTaskPool p None) evs) = 4"
    "maxConcurrency (run (requireTaskPool p (Some m)) evs) = m"
    by (simp_all add: requireTaskPool_def RendererTaskpoolItem_def)
  have b: "started (run (requireTaskPool p (Some m)) evs) = []
        \<and> sent (run (requireTaskPool p (Some m)) evs) = []
        \<and> length (q (run (requireTaskPool p (Some m)) evs)) = length (calls evs)"
    if "m \<le> 0"
  proof -
    from that have u: "unused (requireTaskPool p (Some m))"
      by (simp add: unused_def requireTaskPool_def RendererTaskpoolItem_def)
    have "q (requireTaskPool p (Some m)) = []"
      by (simp add: requireTaskPool_def RendererTaskpoolItem_def)
    with unused_run [OF u, of evs] show ?thesis by (simp add: unused_def)
  qed
  have c: "completions (step e (run (requireTaskPool p mc) evs))
         \<noteq> completions (run (requireTaskPool p mc) evs) \<longrightarrow>
        timer (step e (run (requireTaskPool p mc) evs))
          = Some (now (step e (run (requireTaskPool p mc) evs)) + 5 * 1000)"
    using step_time_frame [of "run (requireTaskPool p mc) evs" e] by auto
  have "reap_timer_ok (run (requireTaskPool p mc) evs)"
    by (rule reap_timer_ok_run [OF reap_timer_ok_init])
  then have d: "timer (run (requireTaskPool p mc) evs) = Some d \<longrightarrow>
        now (run (requireTaskPool p mc) evs) \<le> d
        \<and> d \<le> now (run (requireTaskPool p mc) evs) + 5 * 1000"
    by (auto simp: reap_timer_ok_def split: option.splits)
  from a b c d show ?thesis by blast
qed

theorem configuration_surface_witness:
  "(0::int) \<le> 0
   \<and> started (run (requireTaskPool ''mod'' (Some 0))
        [Call [''__removeme__'', ''f''] [JNum 1], Call [''__removeme__'', ''g''] []]) = []
   \<and> length (q (run (requireTaskPool ''mod'' (Some 0))
        [Call [''__removeme__'', ''f''] [JNum 1], Call [''__removeme__'', ''g''] []]))
       = length (calls [Call [''__removeme__'', ''f''] [JNum 1], Call [''__removeme__'', ''g''] []])
   \<and> length (calls [Call [''__removeme__'', ''f''] [JNum 1], Call [''__removeme__'', ''g''] []]) = 2
   \<and> completions (step (Reply 0 (Success (JNum 1))) (run (requireTaskPool ''mod'' (Some 7)) two_calls))
       \<noteq> completions (run (requireTaskPool ''mod'' (Some 7)) two_calls)
   \<and> timer (step (Reply 0 (Success (JNum 1))) (run (requireTaskPool ''mod'' (Some 7)) two_calls))
       = Some (now (step (Reply 0 (Success (JNum 1)))
            (run (requireTaskPool ''mod'' (Some 7)) two_calls)) + 5 * 1000)
   \<and> timer (run (requireTaskPool ''mod'' None) (two_calls @ [Reply 0 (Success (JNum 1)), Advance 2000]))
       = Some 5000
   \<and> now (run (requireTaskPool ''mod'' None) (two_calls @ [Reply 0 (Success (JNum 1)), Advance 2000]))
       \<le> 5000
   \<and> (5000::nat) \<le> now (run (requireTaskPool ''mod'' None)
        (two_calls @ [Reply 0 (Success (JNum 1)), Advance 2000])) + 5 * 1000"
proof -
  let ?c2 = "[Call [''__removeme__'', ''f''] [JNum 1], Call [''__removeme__'', ''g''] []]"
  let ?s7 = "run (requireTaskPool ''mod'' (Some 7)) two_calls"
  let ?e = "Reply 0 (Success (JNum 1))"
  let ?evs = "two_calls @ [Reply 0 (Success (JNum 1)), Advance 2000]"
  have h0: "(0::int) \<le> 0" by simp
  have n2: "length (calls ?c2) = 2" by simp
  have h1: "completions (step ?e ?s7) \<noteq> completions ?s7" by (simp add: example_defs eval_defs)
  have h2: "timer (run (requireTaskPool ''mod'' None) ?evs) = Some 5000"
    by (simp add: example_defs eval_defs)
  from h0 configuration_surface [of "''mod''" ?c2 0]
  have a: "started (run (requireTaskPool ''mod'' (Some 0)) ?c2) = []
       \<and> length (q (run (requireTaskPool ''mod'' (Some 0)) ?c2)) = length (calls ?c2)" by blast
  from h1 configuration_surface [of "''mod''" two_calls _ ?e "Some 7"]
  have b: "timer (step ?e ?s7) = Some (now (step ?e ?s7) + 5 * 1000)" by blast
  from h2 configuration_surface [of "''mod''" ?evs _ _ None 5000]
  have c: "now (run (requireTaskPool ''mod'' None) ?evs) \<le> 5000
       \<and> 5000 \<le> now (run (requireTaskPool ''mod'' None) ?evs) + 5 * 1000" by blast
  from h0 n2 h1 h2 a b c show ?thesis by blast
qed

text \<open>
  The claim as stated fails: \<open>maxConcurrency\<close> need not be positive (0 and -3 are taken as
  they are, and the pool with -3 buffers its call without dispatching it), and no argument
  of \<^verbatim>\<open>requireTaskPool\<close> sets the quiet interval, which is 5000 in pools created with
  different arguments.
\<close>

theorem configuration_counterexample:
  "maxConcurrency (requireTaskPool ''mod'' (Some 0)) = 0
   \<and> maxConcurrency (requireTaskPool ''mod'' (Some (- 3))) = - 3
   \<and> started (run (requireTaskPool ''mod'' (Some (- 3))) [Call [''__removeme__'', ''f''] [JNum 1]]) = []
   \<and> map retval (q (run (requireTaskPool ''mod'' (Some (- 3))) [Call [''__removeme__'', ''f''] [JNum 1]])) = [0]
   \<and> timer (run (requireTaskPool ''mod'' (Some 7)) (two_calls @ [Reply 0 (Success (JNum 1))])) = Some 5000
   \<and> timer (run (requireTaskPool ''other'' None) (two_calls @ [Reply 0 (Success (JNum 1))])) = Some 5000"
  by (simp add: example_defs eval_defs)

end
